theory Spec2Isabelle
  imports Complex_Main "HOL-Library.AList"
begin

section \<open>Values, key paths and the key-path accessor (reflectionUtils)\<close>

text \<open>
  Segments ("verses"), reflection loops and the configuration are schemaless JavaScript
  objects in the source. The values reachable through a configured key path are modelled
  by the tagged union \<open>json\<close>: an object is the association list of its own properties
  in insertion order, read through \<open>map_of\<close> and written with \<open>AList.update\<close>. Numbers are
  integers here (grades are integers; fractional array indices and \<open>NaN\<close> are outside the
  model). Every object of the data inherits from \<open>Object.prototype\<close>, so a key path can
  leave the data: \<open>JObjectPrototype\<close> is \<open>Object.prototype\<close> itself and \<open>JBuiltin name\<close> the
  function it holds under \<open>name\<close>.
\<close>

datatype json =
    JUndefined
  | JNull
  | JBool bool
  | JNum int
  | JStr string
  | JArr "json list"
  | JObj "(string \<times> json) list"
  | JBuiltin string
  | JObjectPrototype

text \<open>A key of a path is \<open>string | number\<close>.\<close>

datatype pkey = KStr string | KNum int

text \<open>The exceptions the modelled code can raise.\<close>

datatype js_error =
    TypeError
  | ArrayProperty
  | Unmodelled
  | SyntaxError
  | ENOENT

text \<open>
  \<open>TypeError\<close> and \<open>SyntaxError\<close> (of \<open>JSON.parse\<close>) are JavaScript's own, \<open>ENOENT\<close> is
  the error of reading a file that does not exist. The other two are not exceptions of
  the source: they mark where it goes on without one but leaves the values held here.
  \<open>ArrayProperty\<close> is a named property of an array, read by \<open>in\<close> or written.
  \<open>Unmodelled\<close> is a write that lands on \<open>Object.prototype\<close> or on a built-in function
  (objects shared by the whole process), a write to \<open>__proto__\<close> that runs the inherited
  setter, and a property of a primitive or of a built-in function.
\<close>

definition err_bind :: "js_error + 'a \<Rightarrow> ('a \<Rightarrow> js_error + 'b) \<Rightarrow> js_error + 'b" where
  "err_bind m f = (case m of Inl e \<Rightarrow> Inl e | Inr x \<Rightarrow> f x)"

text \<open>\<open>String(n)\<close> for an integer: the property name a numeric key is converted to.\<close>

function string_of_nat :: "nat \<Rightarrow> string" where
  "string_of_nat n =
     (if n < 10 then [''0123456789'' ! n]
      else string_of_nat (n div 10) @ [''0123456789'' ! (n mod 10)])"
  by pat_completeness auto
termination
  by (relation "measure id") auto

definition string_of_int :: "int \<Rightarrow> string" where
  "string_of_int i = (if i < 0 then CHR ''-'' # string_of_nat (nat (- i)) else string_of_nat (nat i))"

fun key_string :: "pkey \<Rightarrow> string" where
  "key_string (KStr s) = s"
| "key_string (KNum i) = string_of_int i"


fun typeof_object :: "json \<Rightarrow> bool" where
  "typeof_object JNull = True"
| "typeof_object (JArr xs) = True"
| "typeof_object (JObj m) = True"
| "typeof_object JObjectPrototype = True"
| "typeof_object v = False"

text \<open>
  The properties of \<open>Object.prototype\<close> as the language standard lists them: the
  functions, and the accessor \<open>__proto__\<close>, which reads as the prototype of the object it
  is looked up on (\<open>Object.prototype\<close> for an object of the data, \<open>null\<close> for
  \<open>Object.prototype\<close>).
\<close>

definition prototype_functions :: "string list" where
  "prototype_functions =
     [''constructor'', ''hasOwnProperty'', ''isPrototypeOf'', ''propertyIsEnumerable'',
      ''toLocaleString'', ''toString'', ''valueOf'',
      ''__defineGetter__'', ''__defineSetter__'', ''__lookupGetter__'', ''__lookupSetter__'']"

definition prototype_member :: "json \<Rightarrow> string \<Rightarrow> json option" where
  "prototype_member proto key =
     (if key = ''__proto__'' then Some proto
      else if key \<in> set prototype_functions then Some (JBuiltin key)
      else None)"

text \<open>
  The property \<open>key\<close> of an object that is not an array: its own, else the inherited one;
  \<open>None\<close> when \<open>key in v\<close> is false.
\<close>

fun js_property :: "json \<Rightarrow> string \<Rightarrow> json option" where
  "js_property (JObj m) key =
     (case map_of m key of
        Some v \<Rightarrow> Some v
      | None \<Rightarrow> prototype_member JObjectPrototype key)"
| "js_property JObjectPrototype key = prototype_member JNull key"
| "js_property v key = None"

text \<open>
  \<open>key in v\<close>: a \<open>TypeError\<close> unless the right operand is an object; on an object of the
  data and on \<open>Object.prototype\<close>, whether it has or inherits the property. The answer
  on an array and on a built-in function is not modelled.
\<close>

fun js_in :: "pkey \<Rightarrow> json \<Rightarrow> js_error + bool" where
  "js_in k (JObj m) = Inr (js_property (JObj m) (key_string k) \<noteq> None)"
| "js_in k JObjectPrototype = Inr (js_property JObjectPrototype (key_string k) \<noteq> None)"
| "js_in k (JArr xs) = Inl ArrayProperty"
| "js_in k (JBuiltin f) = Inl Unmodelled"
| "js_in k v = Inl TypeError"

text \<open>\<open>xs[i]\<close> on an array with a numeric index: \<open>undefined\<close> out of range.\<close>

definition arr_index :: "json list \<Rightarrow> int \<Rightarrow> json" where
  "arr_index xs i = (if 0 \<le> i \<and> i < int (length xs) then xs ! nat i else JUndefined)"

text \<open>
  \<open>v[key]\<close>: a \<open>TypeError\<close> on \<open>undefined\<close> and \<open>null\<close>, the own or inherited property of
  an object, \<open>undefined\<close> when it has none, the element of an array. A named property
  of an array and a property of a primitive or of a built-in function are not modelled.
\<close>

fun js_get :: "json \<Rightarrow> pkey \<Rightarrow> js_error + json" where
  "js_get JUndefined k = Inl TypeError"
| "js_get JNull k = Inl TypeError"
| "js_get (JObj m) k =
     Inr (case js_property (JObj m) (key_string k) of None \<Rightarrow> JUndefined | Some v \<Rightarrow> v)"
| "js_get JObjectPrototype k =
     Inr (case js_property JObjectPrototype (key_string k) of None \<Rightarrow> JUndefined | Some v \<Rightarrow> v)"
| "js_get (JArr xs) (KNum i) = Inr (arr_index xs i)"
| "js_get (JArr xs) (KStr s) = Inl ArrayProperty"
| "js_get v k = Inl Unmodelled"

text \<open>
  \<open>lookUpKey(data, keys, defaultValue = null, noneIsValid = true)\<close>: the \<open>for\<close> loop over
  \<open>keys\<close> is the recursion; every \<open>return defaultValue\<close> of the loop is a branch.
\<close>

fun lookUpKey :: "json \<Rightarrow> pkey list \<Rightarrow> json \<Rightarrow> bool \<Rightarrow> js_error + json" where
  "lookUpKey current [] defaultValue noneIsValid =
     (if current = JNull \<and> \<not> noneIsValid then Inr defaultValue else Inr current)"
| "lookUpKey current (key # keys) defaultValue noneIsValid =
     (case current of
        JArr xs \<Rightarrow>
          (case key of
             KStr s \<Rightarrow> Inr defaultValue
           | KNum i \<Rightarrow>
               if i < 0 \<or> i \<ge> int (length xs) then Inr defaultValue
               else lookUpKey (arr_index xs i) keys defaultValue noneIsValid)
      | _ \<Rightarrow>
          if typeof_object current \<and> current \<noteq> JNull then
            err_bind (js_in key current) (\<lambda>present.
              if present then
                err_bind (js_get current key) (\<lambda>v. lookUpKey v keys defaultValue noneIsValid)
              else Inr defaultValue)
          else Inr defaultValue)"

text \<open>
  The reading of a key path that the accessor is meant to implement: the value the path
  leads to, or nothing when an object neither has nor inherits a key, an array is
  indexed by a string or out of bounds, or an intermediate value is neither an array
  nor an object.
\<close>

fun resolve :: "json \<Rightarrow> pkey list \<Rightarrow> json option" where
  "resolve v [] = Some v"
| "resolve (JObj m) (k # ks) =
     (case js_property (JObj m) (key_string k) of None \<Rightarrow> None | Some v \<Rightarrow> resolve v ks)"
| "resolve JObjectPrototype (k # ks) =
     (case js_property JObjectPrototype (key_string k) of None \<Rightarrow> None | Some v \<Rightarrow> resolve v ks)"
| "resolve (JArr xs) (KNum i # ks) =
     (if 0 \<le> i \<and> i < int (length xs) then resolve (xs ! nat i) ks else None)"
| "resolve v (k # ks) = None"

text \<open>
  \<open>current[key] = value\<close>. The module is compiled in strict mode, so a write on a
  primitive raises a \<open>TypeError\<close>, as on \<open>null\<close> and \<open>undefined\<close>. On an object of the
  data the write makes or replaces an own property, also under an inherited name; only
  \<open>__proto__\<close>, when the object has no own property of that name, runs the inherited
  setter instead.
\<close>

fun js_set :: "json \<Rightarrow> string \<Rightarrow> json \<Rightarrow> js_error + json" where
  "js_set (JObj m) k v =
     (if k = ''__proto__'' \<and> map_of m k = None then Inl Unmodelled
      else Inr (JObj (AList.update k v m)))"
| "js_set (JArr xs) k v = Inl ArrayProperty"
| "js_set (JBuiltin f) k v = Inl Unmodelled"
| "js_set JObjectPrototype k v = Inl Unmodelled"
| "js_set c k v = Inl TypeError"

text \<open>
  \<open>setKey(data, keys, value)\<close>. The loop over \<open>keys.slice(0, -1)\<close> creates the missing
  intermediate objects and walks into them; the source mutates the nested object in
  place, so the model stores the updated child back under its key. With an empty path
  \<open>keys[keys.length - 1]\<close> is \<open>undefined\<close> and the property written is \<open>"undefined"\<close>.
  A path that runs into an array is reported as \<open>ArrayProperty\<close>, one that walks into
  an inherited property (where the source writes to \<open>Object.prototype\<close> or to a built-in
  function) as \<open>Unmodelled\<close>.
\<close>

fun setKey :: "json \<Rightarrow> string list \<Rightarrow> json \<Rightarrow> js_error + json" where
  "setKey current [] v = js_set current ''undefined'' v"
| "setKey current [key] v = js_set current key v"
| "setKey (JArr xs) (key # keys) v = Inl ArrayProperty"
| "setKey current (key # keys) v =
     err_bind (js_in (KStr key) current) (\<lambda>present.
       err_bind (if present then Inr current else js_set current key (JObj [])) (\<lambda>current1.
         err_bind (js_get current1 (KStr key)) (\<lambda>child.
           err_bind (setKey child keys v) (\<lambda>child1.
             js_set current1 key child1))))"

text \<open>JavaScript truthiness of a value, and of an optional property.\<close>

fun truthy :: "json \<Rightarrow> bool" where
  "truthy JUndefined = False"
| "truthy JNull = False"
| "truthy (JBool b) = b"
| "truthy (JNum n) = (n \<noteq> 0)"
| "truthy (JStr s) = (s \<noteq> [])"
| "truthy v = True"

definition prop_value :: "json option \<Rightarrow> json" where
  "prop_value p = (case p of None \<Rightarrow> JUndefined | Some v \<Rightarrow> v)"

section \<open>Segments, reflection loops and the configuration (gradeReflectLoop)\<close>

text \<open>
  The fields the engine reads by name are typed; \<open>None\<close> is an absent property
  (\<open>undefined\<close>; for the numeric fields also \<open>null\<close>, which \<open>??\<close> treats alike). What the
  configured key paths address (reference, source, translation, translation comment)
  lives in \<open>data\<close> and is reached through \<open>lookUpKey\<close> and \<open>setKey\<close> only; the configured
  key paths are taken not to address the engine's own bookkeeping properties. Averages
  are exact rationals where the source computes in floating point.
\<close>

record gradeResponse =
  comment :: string
  grade :: int

record reflectionLoop =
  grades :: "gradeResponse list option"
  graded_verse :: "json option"
  graded_verse_comment :: "json option"
  average_grade :: "rat option"
  correction_summarization :: "json option"
  is_adaptation :: "bool option"

record verse =
  data :: json
  reflection_loops :: "reflectionLoop list option"
  reflection_is_finalized :: "bool option"
  reflection_finalized_grade :: "rat option"
  reflection_finalized_comment :: "json option"
  comment_mod_loop_count :: "int option"
  ai_halted :: "bool option"
  grade_only :: "bool option"
  human_reviewed :: "bool option"
  adapted :: "bool option"

record config =
  reference_key :: "string list"
  source_key :: "string list"
  translation_key :: "string list"
  translation_comment_key :: "string list option"
  grades_per_reflection_loop :: int
  reflection_loops_per_verse :: "int option"
  iterations_pass_comment :: "int option"
  grade_mode_enabled :: "bool option"
  start_line :: "int option"
  end_line :: "int option"
  debug_force_vref :: "json option"
  adaptation_prompt :: "string option"
  highest_grade_to_reflect :: "rat option"
  reset_reflection_loops_on_update :: "bool option"
  num_context_verses_before :: "int option"
  num_context_verses_after :: "int option"

text \<open>The empty loop \<open>{}\<close> and the empty segment \<open>{}\<close>.\<close>

definition empty_loop :: reflectionLoop where
  "empty_loop = \<lparr>grades = None, graded_verse = None, graded_verse_comment = None,
     average_grade = None, correction_summarization = None, is_adaptation = None\<rparr>"

definition empty_verse :: verse where
  "empty_verse = \<lparr>data = JObj [], reflection_loops = None, reflection_is_finalized = None,
     reflection_finalized_grade = None, reflection_finalized_comment = None,
     comment_mod_loop_count = None, ai_halted = None, grade_only = None,
     human_reviewed = None, adapted = None\<rparr>"

definition verseIsFinalized :: "verse \<Rightarrow> bool" where
  "verseIsFinalized v = (reflection_is_finalized v = Some True)"

text \<open>
  \<open>computeGradeForReflectionLoop\<close>: returns the average or \<open>null\<close>, and the loop with the
  average stashed once the grade count reaches \<open>grades_per_reflection_loop\<close>.
\<close>

definition computeGradeForReflectionLoop ::
  "reflectionLoop \<Rightarrow> config \<Rightarrow> rat option \<times> reflectionLoop" where
  "computeGradeForReflectionLoop reflectionLoop c =
     (case average_grade reflectionLoop of
        Some a \<Rightarrow> (Some a, reflectionLoop)
      | None \<Rightarrow>
          (let gs = (case grades reflectionLoop of None \<Rightarrow> [] | Some g \<Rightarrow> g);
               gradeCount = length gs;
               gradeSum = sum_list (map grade gs)
           in if gradeCount > 0 then
                (let averagedGrade = of_int gradeSum / of_nat gradeCount
                 in (Some averagedGrade,
                     if int gradeCount \<ge> grades_per_reflection_loop c
                     then reflectionLoop\<lparr>average_grade := Some averagedGrade\<rparr>
                     else reflectionLoop))
              else (None, reflectionLoop)))"

text \<open>
  The backwards iteration of \<open>computeVerseGrade\<close> over \<open>reflection_loops.slice().reverse()\<close>:
  the argument is the reversed list; the copy shares the loop objects, so a stashed
  average is kept.
\<close>

fun gradeWalk :: "config \<Rightarrow> reflectionLoop list \<Rightarrow> rat option \<times> reflectionLoop list" where
  "gradeWalk c [] = (None, [])"
| "gradeWalk c (l # ls) =
     (case computeGradeForReflectionLoop l c of
        (Some g, l1) \<Rightarrow> (Some g, l1 # ls)
      | (None, l1) \<Rightarrow> (case gradeWalk c ls of (r, ls1) \<Rightarrow> (r, l1 # ls1)))"

definition computeVerseGrade :: "verse \<Rightarrow> config \<Rightarrow> js_error + (rat option \<times> verse)" where
  "computeVerseGrade v c =
     err_bind (lookUpKey (data v) (map KStr (reference_key c)) JNull True) (\<lambda>vref.
       if vref = JNull \<or> vref = JUndefined then Inr (None, v)
       else (case reflection_loops v of
               None \<Rightarrow> Inr (None, v)
             | Some ls \<Rightarrow>
                 if length ls = 0 then Inr (None, v)
                 else if verseIsFinalized v then Inr (reflection_finalized_grade v, v)
                 else (case gradeWalk c (rev ls) of
                         (g, rls) \<Rightarrow> Inr (g, v\<lparr>reflection_loops := Some (rev rls)\<rparr>))))"

definition ITERATIONS_PASS_COMMENT_DEFAULT :: int where
  "ITERATIONS_PASS_COMMENT_DEFAULT = 5"

definition computeReflectionLoopsNeeded :: "verse \<Rightarrow> config \<Rightarrow> int" where
  "computeReflectionLoopsNeeded v c =
     max ((case comment_mod_loop_count v of None \<Rightarrow> - ITERATIONS_PASS_COMMENT_DEFAULT | Some k \<Rightarrow> k) +
          (case iterations_pass_comment c of None \<Rightarrow> ITERATIONS_PASS_COMMENT_DEFAULT | Some k \<Rightarrow> k))
         (case reflection_loops_per_verse c of None \<Rightarrow> 0 | Some n \<Rightarrow> n)"

definition computeNumberUnansweredGrades :: "verse \<Rightarrow> config \<Rightarrow> int" where
  "computeNumberUnansweredGrades v c =
     (case reflection_loops v of
        None \<Rightarrow> 0
      | Some ls \<Rightarrow>
          if length ls = 0 then 0
          else (let lastReflectionLoop = last ls
                in if truthy (prop_value (graded_verse lastReflectionLoop)) \<and>
                      computeReflectionLoopsNeeded v c > int (length ls)
                   then 0
                   else (case grades lastReflectionLoop of
                           None \<Rightarrow> 0
                         | Some gs \<Rightarrow> int (length gs))))"

text \<open>
  \<open>verseNeedsFinalization\<close> reads \<open>grades.length\<close> of the last loop without a guard: a
  last loop with no \<open>grades\<close> property raises a \<open>TypeError\<close>.
\<close>

definition verseNeedsFinalization :: "verse \<Rightarrow> config \<Rightarrow> js_error + bool" where
  "verseNeedsFinalization v c =
     (let reflectionLoops = (case reflection_loops v of None \<Rightarrow> [] | Some ls \<Rightarrow> ls)
      in if int (length reflectionLoops) < max 1 (computeReflectionLoopsNeeded v c) then Inr False
         else (case grades (last reflectionLoops) of
                 None \<Rightarrow> Inl TypeError
               | Some gs \<Rightarrow>
                   if int (length gs) < grades_per_reflection_loop c then Inr False
                   else Inr True))"

text \<open>The first index of \<open>xs.slice(k)\<close> on an array of length \<open>n\<close>.\<close>

definition slice_start :: "nat \<Rightarrow> int \<Rightarrow> nat" where
  "slice_start n k = (if k < 0 then nat (max (int n + k) 0) else min (nat k) n)"

text \<open>
  The selection loop of \<open>finalizeVerse\<close>. \<open>bestLoop\<close> is a reference to a loop object;
  the model keeps its index with \<open>bestGrade\<close>. The second argument is the index of the
  head of the remaining slice.
\<close>

fun findBest :: "(nat \<times> rat) option \<Rightarrow> nat \<Rightarrow> reflectionLoop list \<Rightarrow> (nat \<times> rat) option" where
  "findBest best i [] = best"
| "findBest best i (l # ls) =
     findBest
       (case average_grade l of
          None \<Rightarrow> best
        | Some a \<Rightarrow>
            (case best of
               None \<Rightarrow> Some (i, a)
             | Some (bi, bestGrade) \<Rightarrow> if bestGrade \<le> a then Some (i, a) else best))
       (Suc i) ls"

text \<open>The backfill of the last loop from the current translation.\<close>

definition backfillLast :: "json \<Rightarrow> config \<Rightarrow> reflectionLoop \<Rightarrow> js_error + reflectionLoop" where
  "backfillLast d c lastLoop =
     (if \<not> truthy (prop_value (graded_verse lastLoop)) then
        err_bind (lookUpKey d (map KStr (translation_key c)) JNull True) (\<lambda>t.
          (case translation_comment_key c of
             None \<Rightarrow> Inr (lastLoop\<lparr>graded_verse := Some t\<rparr>)
           | Some ck \<Rightarrow>
               err_bind (lookUpKey d (map KStr ck) JNull True) (\<lambda>tc.
                 Inr (lastLoop\<lparr>graded_verse := Some t, graded_verse_comment := Some tc\<rparr>))))
      else Inr lastLoop)"

text \<open>
  The body of \<open>if (bestLoop !== null)\<close>: backfill the last loop, overwrite the official
  translation (and comment) with the best loop's, mark as finalized. The backfill
  mutates the last loop object, which \<open>bestLoop\<close> may be: the best loop is read after it.
\<close>

definition applyBest :: "verse \<Rightarrow> config \<Rightarrow> reflectionLoop list \<Rightarrow> nat \<Rightarrow> rat \<Rightarrow> js_error + verse" where
  "applyBest v1 c ls bi bestGrade =
     err_bind (backfillLast (data v1) c (last ls)) (\<lambda>lastLoop.
       let ls1 = ls[length ls - 1 := lastLoop];
           bestLoop = ls1 ! bi
       in err_bind (setKey (data v1) (translation_key c) (prop_value (graded_verse bestLoop))) (\<lambda>f1.
            err_bind (case translation_comment_key c of
                        None \<Rightarrow> Inr f1
                      | Some ck \<Rightarrow> setKey f1 ck (prop_value (graded_verse_comment bestLoop))) (\<lambda>f2.
              Inr (v1\<lparr>data := f2,
                      reflection_loops := Some ls1,
                      reflection_is_finalized := Some True,
                      reflection_finalized_grade := Some bestGrade\<rparr>))))"

definition finalizeVerse :: "verse \<Rightarrow> config \<Rightarrow> js_error + verse" where
  "finalizeVerse v c =
     (case reflection_loops v of
        None \<Rightarrow> Inr v
      | Some ls0 \<Rightarrow>
          if verseIsFinalized v then Inr v
          else
            err_bind (verseNeedsFinalization v c) (\<lambda>needs.
              if \<not> needs then Inr v
              else
                err_bind (computeVerseGrade v c) (\<lambda>r.
                  let v1 = snd r in
                  case reflection_loops v1 of
                    None \<Rightarrow> Inr v1
                  | Some ls \<Rightarrow>
                      let firstIndexConsidered =
                            slice_start (length ls)
                              (case comment_mod_loop_count v1 of None \<Rightarrow> 0 | Some k \<Rightarrow> k)
                      in case findBest None firstIndexConsidered (drop firstIndexConsidered ls) of
                           None \<Rightarrow> Inr v1
                         | Some (bi, bestGrade) \<Rightarrow> applyBest v1 c ls bi bestGrade)))"

text \<open>
  \<open>setConfigDefaults({})\<close>: the configuration of a run with nothing configured, and the
  examples: one round per segment and two grades per round, a segment with one round
  graded 40 and 60, and that segment as \<open>finalizeVerse\<close> leaves it.
\<close>

definition default_config :: config where
  "default_config = \<lparr>reference_key = [''vref''], source_key = [''source''],
     translation_key = [''fresh_translation'', ''text''],
     translation_comment_key = Some [''translation_notes''],
     grades_per_reflection_loop = 6, reflection_loops_per_verse = Some 10,
     iterations_pass_comment = None, grade_mode_enabled = None,
     start_line = None, end_line = None, debug_force_vref = None,
     adaptation_prompt = None, highest_grade_to_reflect = Some 90,
     reset_reflection_loops_on_update = Some True,
     num_context_verses_before = Some 10, num_context_verses_after = Some 10\<rparr>"

definition ex_config :: config where
  "ex_config = default_config\<lparr>grades_per_reflection_loop := 2, reflection_loops_per_verse := Some 1\<rparr>"

definition ex_verse :: verse where
  "ex_verse = empty_verse\<lparr>
     data := JObj [(''vref'', JStr ''GEN 1:1''), (''source'', JStr ''src''),
                   (''fresh_translation'', JObj [(''text'', JStr ''draft'')])],
     reflection_loops := Some [empty_loop\<lparr>grades := Some [\<lparr>comment = ''a'', grade = 40\<rparr>, \<lparr>comment = ''b'', grade = 60\<rparr>]\<rparr>]\<rparr>"

text \<open>
  \<open>walked v c\<close>: \<open>computeVerseGrade\<close> reaches its loop over the rounds. \<open>memoized c ls\<close>:
  the rounds as that loop leaves them.
\<close>

definition walked :: "verse \<Rightarrow> config \<Rightarrow> bool" where
  "walked v c \<longleftrightarrow>
     lookUpKey (data v) (map KStr (reference_key c)) JNull True \<noteq> Inr JNull \<and>
     lookUpKey (data v) (map KStr (reference_key c)) JNull True \<noteq> Inr JUndefined \<and>
     (\<exists>ls. reflection_loops v = Some ls \<and> ls \<noteq> []) \<and> \<not> verseIsFinalized v"

definition memoized :: "config \<Rightarrow> reflectionLoop list \<Rightarrow> reflectionLoop list" where
  "memoized c ls = rev (snd (gradeWalk c (rev ls)))"

definition ex_verse_finalized :: verse where
  "ex_verse_finalized = empty_verse\<lparr>
     data := JObj [(''vref'', JStr ''GEN 1:1''), (''source'', JStr ''src''),
                   (''fresh_translation'', JObj [(''text'', JStr ''draft'')]),
                   (''translation_notes'', JNull)],
     reflection_loops := Some [empty_loop\<lparr>
        grades := Some [\<lparr>comment = ''a'', grade = 40\<rparr>, \<lparr>comment = ''b'', grade = 60\<rparr>],
        graded_verse := Some (JStr ''draft''), graded_verse_comment := Some JNull,
        average_grade := Some 50\<rparr>],
     reflection_is_finalized := Some True,
     reflection_finalized_grade := Some 50\<rparr>"

text \<open>
  Further examples: a segment with two rounds, the first graded 90 on \<open>draft1\<close>, the
  second graded 40 and 60 on the current \<open>draft2\<close>, before and after finalization.
\<close>

definition ex_loops2 :: "reflectionLoop list" where
  "ex_loops2 =
     [empty_loop\<lparr>grades := Some [\<lparr>comment = ''a'', grade = 90\<rparr>, \<lparr>comment = ''b'', grade = 90\<rparr>],
                  graded_verse := Some (JStr ''draft1''), graded_verse_comment := Some (JStr ''note1''),
                  average_grade := Some 90\<rparr>,
      empty_loop\<lparr>grades := Some [\<lparr>comment = ''c'', grade = 40\<rparr>, \<lparr>comment = ''d'', grade = 60\<rparr>]\<rparr>]"

definition ex_verse2 :: verse where
  "ex_verse2 = empty_verse\<lparr>
     data := JObj [(''vref'', JStr ''GEN 1:2''),
                   (''fresh_translation'', JObj [(''text'', JStr ''draft2'')]),
                   (''translation_notes'', JStr ''note2'')],
     reflection_loops := Some ex_loops2\<rparr>"

definition ex_verse2_finalized :: verse where
  "ex_verse2_finalized = empty_verse\<lparr>
     data := JObj [(''vref'', JStr ''GEN 1:2''),
                   (''fresh_translation'', JObj [(''text'', JStr ''draft1'')]),
                   (''translation_notes'', JStr ''note1'')],
     reflection_loops := Some
       [empty_loop\<lparr>grades := Some [\<lparr>comment = ''a'', grade = 90\<rparr>, \<lparr>comment = ''b'', grade = 90\<rparr>],
                    graded_verse := Some (JStr ''draft1''), graded_verse_comment := Some (JStr ''note1''),
                    average_grade := Some 90\<rparr>,
        empty_loop\<lparr>grades := Some [\<lparr>comment = ''c'', grade = 40\<rparr>, \<lparr>comment = ''d'', grade = 60\<rparr>],
                    graded_verse := Some (JStr ''draft2''), graded_verse_comment := Some (JStr ''note2''),
                    average_grade := Some 50\<rparr>],
     reflection_is_finalized := Some True,
     reflection_finalized_grade := Some 90\<rparr>"

section \<open>The engine's sweep and selection (runConfigLowestGradePriority)\<close>

text \<open>
  One iteration of the engine's \<open>while\<close> loop first sweeps the collection in document
  order and stops at the first segment to adapt, to catch up after a comment change, or
  to grade. Only the grading branch sets \<open>selectedVerse\<close>: after an adaptation, after a
  catch-up and when the sweep found nothing, the same iteration goes on to select a
  segment to finalize or reflect on. The evaluation service is outside the model: its
  answers are functions given to the model. \<open>ovr vref\<close> stands for
  \<open>vref in overRiddenReferences\<close>.
\<close>

datatype sweep_action =
    NoGrading
  | Adapt nat
  | SkipReflection nat
  | RevertFinalization nat
  | Grade nat int

text \<open>\<open>runAdaptationPass\<close> up to its call of the service: whether the segment is adapted now.\<close>

definition adaptationDue :: "verse \<Rightarrow> config \<Rightarrow> bool" where
  "adaptationDue v c =
     (if \<not> (case adaptation_prompt c of None \<Rightarrow> False | Some p \<Rightarrow> p \<noteq> []) then False
      else if adapted v = Some True then False
      else True)"

text \<open>
  What the sweep decides for one eligible segment at line \<open>n\<close>: the adaptation pass, the
  catch-up after a comment change (\<open>reflectionLoops.length <= comment_mod_loop_count\<close>),
  the check for missing grades; \<open>None\<close> when the loop goes on to the next segment.
  \<open>Grade n k\<close> is the decision to grade the segment at line \<open>n\<close> with \<open>k\<close> grades; what the
  grading branch then does, with the adaptation of the context neighbours, is
  \<open>gradeVerse\<close> below.
\<close>

definition catchUpDue :: "verse \<Rightarrow> bool" where
  "catchUpDue v =
     (let reflectionLoops = (case reflection_loops v of None \<Rightarrow> [] | Some ls \<Rightarrow> ls);
          gradedVerseInserted = (graded_verse (last reflectionLoops) \<noteq> None)
      in length reflectionLoops > 0 \<and>
         int (length reflectionLoops) \<le> (case comment_mod_loop_count v of None \<Rightarrow> - 1 | Some k \<Rightarrow> k) \<and>
         (\<not> gradedVerseInserted \<or> verseIsFinalized v))"

definition sweepVerse :: "verse \<Rightarrow> config \<Rightarrow> nat \<Rightarrow> sweep_action option" where
  "sweepVerse v c n =
     (if adaptationDue v c then Some (Adapt n)
      else if catchUpDue v then
        (let reflectionLoops = (case reflection_loops v of None \<Rightarrow> [] | Some ls \<Rightarrow> ls);
             gradedVerseInserted = (graded_verse (last reflectionLoops) \<noteq> None)
         in if \<not> gradedVerseInserted then Some (SkipReflection n) else Some (RevertFinalization n))
      else
        (let unansweredGrades = computeNumberUnansweredGrades v c
         in if unansweredGrades < grades_per_reflection_loop c then
              Some (Grade n
                (if \<not> (case grade_mode_enabled c of None \<Rightarrow> True | Some b \<Rightarrow> b) then 1
                 else grades_per_reflection_loop c - unansweredGrades))
            else None))"

text \<open>The \<open>for\<close> loop of the sweep from line \<open>n\<close> on: \<open>continue\<close> recurses, \<open>break\<close> returns.\<close>

fun sweepFrom :: "config \<Rightarrow> (json \<Rightarrow> bool) \<Rightarrow> nat \<Rightarrow> verse list \<Rightarrow> js_error + sweep_action" where
  "sweepFrom c ovr n [] = Inr NoGrading"
| "sweepFrom c ovr n (v # rest) =
     (if (case start_line c of None \<Rightarrow> False | Some s \<Rightarrow> int n < s - 1) then sweepFrom c ovr (Suc n) rest
      else if (case end_line c of None \<Rightarrow> False | Some e \<Rightarrow> int n > e - 1) then Inr NoGrading
      else if ai_halted v = Some True then sweepFrom c ovr (Suc n) rest
      else
        err_bind (lookUpKey (data v) (map KStr (reference_key c)) JNull True) (\<lambda>vref.
          if vref \<noteq> JNull \<and> vref \<noteq> JUndefined \<and> \<not> ovr vref then
            (case sweepVerse v c n of
               Some a \<Rightarrow> Inr a
             | None \<Rightarrow> sweepFrom c ovr (Suc n) rest)
          else sweepFrom c ovr (Suc n) rest))"

text \<open>
  The loop goes on past the segment at line \<open>n\<close>: the line is before \<open>start_line\<close>, or it
  is not after \<open>end_line\<close> and the segment is halted, has no reference or an overridden
  one, or needs neither adaptation nor catch-up nor grades.
\<close>

definition sweepPasses :: "config \<Rightarrow> (json \<Rightarrow> bool) \<Rightarrow> nat \<Rightarrow> verse \<Rightarrow> bool" where
  "sweepPasses c ovr n v =
     ((case start_line c of None \<Rightarrow> False | Some s \<Rightarrow> int n < s - 1) \<or>
      (\<not> (case end_line c of None \<Rightarrow> False | Some e \<Rightarrow> int n > e - 1) \<and>
       (ai_halted v = Some True \<or>
        (case lookUpKey (data v) (map KStr (reference_key c)) JNull True of
           Inl e \<Rightarrow> False
         | Inr vref \<Rightarrow> vref = JNull \<or> vref = JUndefined \<or> ovr vref) \<or>
        sweepVerse v c n = None)))"

definition sweep :: "config \<Rightarrow> (json \<Rightarrow> bool) \<Rightarrow> verse list \<Rightarrow> js_error + sweep_action" where
  "sweep c ovr reflectionOutput = sweepFrom c ovr 0 reflectionOutput"

text \<open>
  Storing the grades the service returned: a first loop is opened on a segment with
  none, a new loop when the last one already holds its \<open>graded_verse\<close>; the grades are
  appended to the last loop, and the finalized and human-reviewed marks are withdrawn.
\<close>

definition appendGrades :: "verse \<Rightarrow> gradeResponse list \<Rightarrow> verse" where
  "appendGrades selectedVerse newGrades =
     (let ls0 = (case reflection_loops selectedVerse of None \<Rightarrow> [] | Some ls \<Rightarrow> ls);
          ls1 = (if length ls0 = 0 then ls0 @ [empty_loop] else ls0);
          ls2 = (if graded_verse (last ls1) \<noteq> None then ls1 @ [empty_loop] else ls1);
          lastReflection = last ls2;
          gs = (case grades lastReflection of None \<Rightarrow> [] | Some g \<Rightarrow> g)
      in selectedVerse\<lparr>
           reflection_loops := Some (ls2[length ls2 - 1 := lastReflection\<lparr>grades := Some (gs @ newGrades)\<rparr>]),
           reflection_is_finalized :=
             (if reflection_is_finalized selectedVerse = Some True then Some False
              else reflection_is_finalized selectedVerse),
           human_reviewed :=
             (if human_reviewed selectedVerse = Some True then Some False
              else human_reviewed selectedVerse)\<rparr>)"

text \<open>The catch-up after a comment change (the branch that ends in \<open>break; // move to save section\<close>).\<close>

definition skipReflection :: "verse \<Rightarrow> config \<Rightarrow> js_error + verse" where
  "skipReflection v c =
     (let reflectionLoops = (case reflection_loops v of None \<Rightarrow> [] | Some ls \<Rightarrow> ls);
          lastReflectionLoop = last reflectionLoops
      in err_bind
           (if graded_verse lastReflectionLoop = None then
              err_bind (case translation_comment_key c of
                          None \<Rightarrow> Inr lastReflectionLoop
                        | Some ck \<Rightarrow>
                            err_bind (lookUpKey (data v) (map KStr ck) JNull True) (\<lambda>tc.
                              Inr (lastReflectionLoop\<lparr>graded_verse_comment := Some tc\<rparr>))) (\<lambda>l1.
                err_bind (lookUpKey (data v) (map KStr (translation_key c)) JNull True) (\<lambda>t.
                  Inr (l1\<lparr>graded_verse := Some t\<rparr>)))
            else Inr lastReflectionLoop) (\<lambda>l2.
           Inr (v\<lparr>reflection_loops := Some (reflectionLoops[length reflectionLoops - 1 := l2]),
                  reflection_is_finalized :=
                    (if reflection_is_finalized v = Some True then Some False
                     else reflection_is_finalized v)\<rparr>)))"

text \<open>
  \<open>runAdaptationPass\<close> after the service has answered with \<open>updated_translation\<close> and
  \<open>planning_thoughts\<close>.
\<close>

definition storeAdaptation :: "verse \<Rightarrow> config \<Rightarrow> json \<Rightarrow> json \<Rightarrow> js_error + verse" where
  "storeAdaptation v c updated_translation planning_thoughts =
     (let ls0 = (case reflection_loops v of None \<Rightarrow> [] | Some ls \<Rightarrow> ls);
          ls1 = (if length ls0 = 0 then ls0 @ [empty_loop] else ls0);
          ls2 = (if truthy (prop_value (graded_verse (last ls1))) then ls1 @ [empty_loop] else ls1);
          lastReflectionLoop = last ls2
      in err_bind (case translation_comment_key c of
                     None \<Rightarrow> Inr lastReflectionLoop
                   | Some ck \<Rightarrow>
                       err_bind (lookUpKey (data v) (map KStr ck) JNull True) (\<lambda>tc.
                         Inr (lastReflectionLoop\<lparr>graded_verse_comment := Some tc\<rparr>))) (\<lambda>l1.
           err_bind (lookUpKey (data v) (map KStr (translation_key c)) JNull True) (\<lambda>t.
             err_bind (setKey (data v) (translation_key c) updated_translation) (\<lambda>f1.
               err_bind (case translation_comment_key c of
                           None \<Rightarrow> Inr f1
                         | Some ck \<Rightarrow> setKey f1 ck planning_thoughts) (\<lambda>f2.
                 Inr (v\<lparr>data := f2,
                        reflection_loops :=
                          Some (ls2[length ls2 - 1 := l1\<lparr>graded_verse := Some t, is_adaptation := Some True\<rparr>]),
                        human_reviewed :=
                          (if human_reviewed v = Some True then Some False else human_reviewed v),
                        adapted := Some True\<rparr>))))))"

text \<open>
  Storing the result of \<open>performReflection\<close>: the current translation goes into the last
  loop, the new translation and its rationale into the segment. The source reads the
  last loop without a guard; a segment with no loop raises a \<open>TypeError\<close>.
\<close>

definition storeReflection ::
  "verse \<Rightarrow> config \<Rightarrow> json \<Rightarrow> json \<Rightarrow> json option \<Rightarrow> js_error + verse" where
  "storeReflection v c updated_translation planning_thoughts summarization =
     (case reflection_loops v of
        None \<Rightarrow> Inl TypeError
      | Some ls \<Rightarrow>
          if ls = [] then Inl TypeError
          else
            err_bind (case translation_comment_key c of
                        None \<Rightarrow> Inr (last ls)
                      | Some ck \<Rightarrow>
                          err_bind (lookUpKey (data v) (map KStr ck) JNull True) (\<lambda>tc.
                            Inr ((last ls)\<lparr>graded_verse_comment := Some tc\<rparr>))) (\<lambda>l1.
              err_bind (lookUpKey (data v) (map KStr (translation_key c)) JNull True) (\<lambda>t.
                err_bind (setKey (data v) (translation_key c) updated_translation) (\<lambda>f1.
                  err_bind (case translation_comment_key c of
                              None \<Rightarrow> Inr f1
                            | Some ck \<Rightarrow> setKey f1 ck planning_thoughts) (\<lambda>f2.
                    Inr (v\<lparr>data := f2,
                           reflection_loops :=
                             Some (ls[length ls - 1 :=
                               l1\<lparr>graded_verse := Some t,
                                  correction_summarization :=
                                    (case summarization of
                                       None \<Rightarrow> correction_summarization l1
                                     | Some s \<Rightarrow> Some s)\<rparr>]),
                           human_reviewed :=
                             (if human_reviewed v = Some True then Some False
                              else human_reviewed v)\<rparr>))))))"

text \<open>\<open>a === b\<close> on values: arrays and objects are equal to themselves only.\<close>

fun strict_eq :: "json \<Rightarrow> json \<Rightarrow> bool" where
  "strict_eq (JArr xs) b = False"
| "strict_eq (JObj m) b = False"
| "strict_eq a b = (a = b)"

text \<open>
  The search for the lowest graded segment (no \<open>debug_force_vref\<close> configured). The
  state of the loop is \<open>lowestGradeFound\<close> with the line of \<open>lowestGradedVerse\<close>;
  \<open>computeVerseGrade\<close> stashes averages on the way, so the collection is returned.
\<close>

fun lowestFrom ::
  "config \<Rightarrow> (json \<Rightarrow> bool) \<Rightarrow> nat \<Rightarrow> (rat \<times> nat) option \<Rightarrow> verse list \<Rightarrow>
   js_error + ((rat \<times> nat) option \<times> verse list)" where
  "lowestFrom c ovr n lowest [] = Inr (lowest, [])"
| "lowestFrom c ovr n lowest (v # rest) =
     (if (case start_line c of None \<Rightarrow> False | Some s \<Rightarrow> int n < s - 1) then
        err_bind (lowestFrom c ovr (Suc n) lowest rest) (\<lambda>(r, vs). Inr (r, v # vs))
      else if (case end_line c of None \<Rightarrow> False | Some e \<Rightarrow> int n > e - 1) then Inr (lowest, v # rest)
      else if ai_halted v = Some True then
        err_bind (lowestFrom c ovr (Suc n) lowest rest) (\<lambda>(r, vs). Inr (r, v # vs))
      else if grade_only v = Some True then
        err_bind (lowestFrom c ovr (Suc n) lowest rest) (\<lambda>(r, vs). Inr (r, v # vs))
      else
        err_bind (lookUpKey (data v) (map KStr (reference_key c)) JNull True) (\<lambda>vref.
          if vref \<noteq> JNull \<and> vref \<noteq> JUndefined \<and> \<not> ovr vref \<and> \<not> verseIsFinalized v then
            err_bind (computeVerseGrade v c) (\<lambda>(verseGrade, v1).
              err_bind (lowestFrom c ovr (Suc n)
                          (case verseGrade of
                             None \<Rightarrow> lowest
                           | Some g \<Rightarrow>
                               (case lowest of
                                  None \<Rightarrow> Some (g, n)
                                | Some (lowestGradeFound, li) \<Rightarrow>
                                    if lowestGradeFound > g then Some (g, n) else lowest))
                          rest) (\<lambda>(r, vs). Inr (r, v1 # vs)))
          else err_bind (lowestFrom c ovr (Suc n) lowest rest) (\<lambda>(r, vs). Inr (r, v # vs))))"

text \<open>The search with \<open>debug_force_vref\<close> configured: the first segment with that reference.\<close>

fun forcedFrom :: "config \<Rightarrow> json \<Rightarrow> nat \<Rightarrow> verse list \<Rightarrow> js_error + nat option" where
  "forcedFrom c forced n [] = Inr None"
| "forcedFrom c forced n (v # rest) =
     err_bind (lookUpKey (data v) (map KStr (reference_key c)) JNull True) (\<lambda>vref.
       if strict_eq vref forced then Inr (Some n) else forcedFrom c forced (Suc n) rest)"

datatype selection =
    StopAboveTarget rat
  | Selected nat
  | NothingToReflect

text \<open>
  The selection of the segment to finalize or reflect on, run when the sweep graded
  nothing and the run is not done.
\<close>

definition selectVerse :: "config \<Rightarrow> (json \<Rightarrow> bool) \<Rightarrow> verse list \<Rightarrow> js_error + (selection \<times> verse list)" where
  "selectVerse c ovr reflectionOutput =
     (case debug_force_vref c of
        None \<Rightarrow>
          err_bind (lowestFrom c ovr 0 None reflectionOutput) (\<lambda>(lowest, vs).
            (case lowest of
               None \<Rightarrow> Inr (NothingToReflect, vs)
             | Some (lowestGradeFound, li) \<Rightarrow>
                 if (case highest_grade_to_reflect c of None \<Rightarrow> False | Some h \<Rightarrow> lowestGradeFound > h)
                 then Inr (StopAboveTarget lowestGradeFound, vs)
                 else Inr (Selected li, vs)))
      | Some forced \<Rightarrow>
          err_bind (forcedFrom c forced 0 reflectionOutput) (\<lambda>r.
            (case r of
               None \<Rightarrow> Inr (NothingToReflect, reflectionOutput)
             | Some li \<Rightarrow> Inr (Selected li, reflectionOutput))))"

datatype work = FinalizeVerse nat | Reflect nat

text \<open>What is done with the selected segment: finalized when it needs it, reflected on otherwise.\<close>

definition selectedWork :: "config \<Rightarrow> verse list \<Rightarrow> nat \<Rightarrow> js_error + work" where
  "selectedWork c reflectionOutput li =
     err_bind (verseNeedsFinalization (reflectionOutput ! li) c) (\<lambda>needs.
       if needs then Inr (FinalizeVerse li) else Inr (Reflect li))"

text \<open>
  The evaluation service, as the functions that answer for it: the adaptation of a
  segment (\<open>updated_translation\<close>, \<open>planning_thoughts\<close>), the comments indexed under a
  reference (\<open>(indexedComments[vref] || []).map((x) => x.comment)\<close>, which raises when
  what it finds is no array), the choices answered to a request for \<open>n\<close> grades, and the
  reflection on a segment (\<open>updated_translation\<close>, \<open>planning_thoughts\<close>,
  \<open>correction_summarization\<close>). The common context handed to the service is kept as
  the comments and the list of \<open>(reference, source, translation)\<close> of the neighbours.
\<close>

type_synonym common_context = "string list \<times> (json \<times> json \<times> json) list"

record services =
  adaptation :: "verse \<Rightarrow> js_error + (json \<times> json)"
  comments :: "json \<Rightarrow> js_error + string list"
  grading :: "verse \<Rightarrow> common_context \<Rightarrow> nat \<Rightarrow> (js_error + gradeResponse) list"
  reflection :: "verse \<Rightarrow> common_context \<Rightarrow> js_error + (json \<times> json \<times> json option)"

text \<open>\<open>runAdaptationPass\<close>: whether the segment was adapted, and the segment.\<close>

definition runAdaptationPass :: "services \<Rightarrow> verse \<Rightarrow> config \<Rightarrow> js_error + (bool \<times> verse)" where
  "runAdaptationPass svc v c =
     (if \<not> adaptationDue v c then Inr (False, v)
      else
        err_bind (adaptation svc v) (\<lambda>(updated_translation, planning_thoughts).
          err_bind (storeAdaptation v c updated_translation planning_thoughts) (\<lambda>v1.
            Inr (True, v1))))"

text \<open>
  The lines \<open>firstIncludedIndex .. lastIncludedIndex\<close> of \<open>buildCommonContext\<close>. With a
  context size that is not configured the bounds are \<open>NaN\<close> and the loop does not run.
\<close>

definition contextIndices :: "config \<Rightarrow> nat \<Rightarrow> nat \<Rightarrow> nat list" where
  "contextIndices c selectedVerseIndex len =
     (case num_context_verses_before c of
        None \<Rightarrow> []
      | Some numContextVersesBefore \<Rightarrow>
          (case num_context_verses_after c of
             None \<Rightarrow> []
           | Some numContextVersesAfter \<Rightarrow>
               map nat [max (int selectedVerseIndex - numContextVersesBefore) 0 ..
                        min (int selectedVerseIndex + numContextVersesAfter) (int len - 1)]))"

text \<open>
  The loop of \<open>buildCommonContext\<close> over these lines: every neighbour with a reference
  that is not overridden goes through the adaptation pass (it is not asked whether it
  is halted or within the line range) and gives its source and translation.
\<close>

fun buildContextFrom ::
  "services \<Rightarrow> config \<Rightarrow> (json \<Rightarrow> bool) \<Rightarrow> nat list \<Rightarrow> verse list \<Rightarrow>
   js_error + ((json \<times> json \<times> json) list \<times> verse list)" where
  "buildContextFrom svc c ovr [] reflectionOutput = Inr ([], reflectionOutput)"
| "buildContextFrom svc c ovr (index # rest) reflectionOutput =
     err_bind (lookUpKey (data (reflectionOutput ! index)) (map KStr (reference_key c)) JNull True)
       (\<lambda>verseReference.
         if truthy verseReference \<and> \<not> ovr verseReference then
           err_bind (runAdaptationPass svc (reflectionOutput ! index) c) (\<lambda>(wasAdapted, v1).
             err_bind (lookUpKey (data v1) (map KStr (translation_key c)) JNull True) (\<lambda>translation.
               err_bind (lookUpKey (data v1) (map KStr (source_key c)) JNull True) (\<lambda>source.
                 err_bind (buildContextFrom svc c ovr rest (reflectionOutput[index := v1]))
                   (\<lambda>(sourceAndTranslation, output1).
                     Inr ((verseReference, source, translation) # sourceAndTranslation, output1)))))
         else buildContextFrom svc c ovr rest reflectionOutput)"

definition buildCommonContext ::
  "services \<Rightarrow> config \<Rightarrow> (json \<Rightarrow> bool) \<Rightarrow> nat \<Rightarrow> verse list \<Rightarrow> js_error + (common_context \<times> verse list)" where
  "buildCommonContext svc c ovr selectedVerseIndex reflectionOutput =
     err_bind (buildContextFrom svc c ovr
                 (contextIndices c selectedVerseIndex (length reflectionOutput)) reflectionOutput)
       (\<lambda>(sourceAndTranslation, output1).
         err_bind (lookUpKey (data (output1 ! selectedVerseIndex)) (map KStr (reference_key c)) JNull True)
           (\<lambda>vref.
             err_bind (comments svc vref) (\<lambda>cs. Inr ((cs, sourceAndTranslation), output1))))"

text \<open>
  \<open>multiGradeVerse\<close>: the first \<open>numGrades\<close> choices of the answer, parsed; a missing
  choice raises a \<open>TypeError\<close>.
\<close>

fun multiGradeVerse :: "(js_error + gradeResponse) list \<Rightarrow> nat \<Rightarrow> js_error + gradeResponse list" where
  "multiGradeVerse choices 0 = Inr []"
| "multiGradeVerse [] (Suc numGrades) = Inl TypeError"
| "multiGradeVerse (choice # choices) (Suc numGrades) =
     err_bind choice (\<lambda>g.
       err_bind (multiGradeVerse choices numGrades) (\<lambda>gs. Inr (g # gs)))"

text \<open>The grading branch of the sweep for the segment at line \<open>n\<close>.\<close>

definition gradeVerse ::
  "services \<Rightarrow> config \<Rightarrow> (json \<Rightarrow> bool) \<Rightarrow> nat \<Rightarrow> int \<Rightarrow> verse list \<Rightarrow> js_error + verse list" where
  "gradeVerse svc c ovr n neededGrades reflectionOutput =
     err_bind (buildCommonContext svc c ovr n reflectionOutput) (\<lambda>(commonContext, output1).
       err_bind (multiGradeVerse (grading svc (output1 ! n) commonContext (nat neededGrades))
                   (nat neededGrades)) (\<lambda>newGrades.
         Inr (output1[n := appendGrades (output1 ! n) newGrades])))"

text \<open>What the sweep does to the collection where it stops.\<close>

fun applySweep ::
  "services \<Rightarrow> config \<Rightarrow> (json \<Rightarrow> bool) \<Rightarrow> sweep_action \<Rightarrow> verse list \<Rightarrow> js_error + verse list" where
  "applySweep svc c ovr NoGrading reflectionOutput = Inr reflectionOutput"
| "applySweep svc c ovr (Adapt n) reflectionOutput =
     err_bind (runAdaptationPass svc (reflectionOutput ! n) c) (\<lambda>(wasAdapted, v1).
       Inr (reflectionOutput[n := v1]))"
| "applySweep svc c ovr (SkipReflection n) reflectionOutput =
     err_bind (skipReflection (reflectionOutput ! n) c) (\<lambda>v1. Inr (reflectionOutput[n := v1]))"
| "applySweep svc c ovr (RevertFinalization n) reflectionOutput =
     err_bind (skipReflection (reflectionOutput ! n) c) (\<lambda>v1. Inr (reflectionOutput[n := v1]))"
| "applySweep svc c ovr (Grade n neededGrades) reflectionOutput =
     gradeVerse svc c ovr n neededGrades reflectionOutput"

text \<open>
  The reflection on the selected segment: the common context (with its adaptation of
  the neighbours), the answer of the service, the stash of averages that the logging of
  the segment's grade makes, and the storing of the result.
\<close>

definition reflectVerse ::
  "services \<Rightarrow> config \<Rightarrow> (json \<Rightarrow> bool) \<Rightarrow> nat \<Rightarrow> verse list \<Rightarrow> js_error + verse list" where
  "reflectVerse svc c ovr li reflectionOutput =
     err_bind (buildCommonContext svc c ovr li reflectionOutput) (\<lambda>(commonContext, output1).
       err_bind (reflection svc (output1 ! li) commonContext)
         (\<lambda>(updated_translation, planning_thoughts, summarization).
           err_bind (computeVerseGrade (output1 ! li) c) (\<lambda>(verseGrade, v1).
             err_bind (storeReflection v1 c updated_translation planning_thoughts summarization) (\<lambda>v2.
               Inr (output1[li := v2])))))"

text \<open>
  \<open>computeTranslationGrade\<close>: the average of the grades of the segments in the line
  range. It calls \<open>computeVerseGrade\<close> on each of them, which stashes averages, so the
  collection is returned with the average. The state of the loop is \<open>verseCount\<close> and
  \<open>verseSum\<close>.
\<close>

fun translationGradeFrom ::
  "config \<Rightarrow> nat \<Rightarrow> nat \<times> rat \<Rightarrow> verse list \<Rightarrow> js_error + ((nat \<times> rat) \<times> verse list)" where
  "translationGradeFrom c n acc [] = Inr (acc, [])"
| "translationGradeFrom c n acc (v # rest) =
     (if (case start_line c of None \<Rightarrow> False | Some s \<Rightarrow> int n < s - 1) then
        err_bind (translationGradeFrom c (Suc n) acc rest) (\<lambda>(r, vs). Inr (r, v # vs))
      else if (case end_line c of None \<Rightarrow> False | Some e \<Rightarrow> int n > e - 1) then Inr (acc, v # rest)
      else
        err_bind (computeVerseGrade v c) (\<lambda>(verseGrade, v1).
          err_bind (translationGradeFrom c (Suc n)
                      (case verseGrade of
                         None \<Rightarrow> acc
                       | Some g \<Rightarrow> (fst acc + 1, snd acc + g))
                      rest) (\<lambda>(r, vs). Inr (r, v1 # vs))))"

definition computeTranslationGrade :: "verse list \<Rightarrow> config \<Rightarrow> js_error + (rat \<times> verse list)" where
  "computeTranslationGrade translation c =
     err_bind (translationGradeFrom c 0 (0, 0) translation) (\<lambda>((verseCount, verseSum), vs).
       Inr (if verseCount = 0 then 0 else verseSum / of_nat verseCount, vs))"

text \<open>
  One iteration of the \<open>while\<close> loop on the collection, up to the saving of the file and
  the log. \<open>stop\<close> stands for \<open>done\<close> as the checks of \<open>manual_edit_mode\<close> and of the
  iterations without improvement leave it. The average of the translation is computed
  before the selection and again for the status line at the end.
\<close>

definition iteration ::
  "services \<Rightarrow> bool \<Rightarrow> config \<Rightarrow> (json \<Rightarrow> bool) \<Rightarrow> verse list \<Rightarrow> js_error + verse list" where
  "iteration svc stop c ovr reflectionOutput =
     err_bind (sweep c ovr reflectionOutput) (\<lambda>action.
       err_bind (applySweep svc c ovr action reflectionOutput) (\<lambda>output1.
         err_bind
           (case action of
              Grade n neededGrades \<Rightarrow> Inr output1
            | _ \<Rightarrow>
                err_bind (computeTranslationGrade output1 c) (\<lambda>(averageGrade, output2).
                  if stop then Inr output2
                  else
                    err_bind (selectVerse c ovr output2) (\<lambda>(sel, output3).
                      (case sel of
                         Selected li \<Rightarrow>
                           err_bind (selectedWork c output3 li) (\<lambda>w.
                             (case w of
                                FinalizeVerse lf \<Rightarrow>
                                  err_bind (finalizeVerse (output3 ! lf) c) (\<lambda>v1.
                                    Inr (output3[lf := v1]))
                              | Reflect lr \<Rightarrow> reflectVerse svc c ovr lr output3))
                       | _ \<Rightarrow> Inr output3))))
           (\<lambda>output4.
             err_bind (computeTranslationGrade output4 c) (\<lambda>(averageGrade, output5).
               Inr output5))))"

text \<open>The line an action of the sweep works on.\<close>

fun action_line :: "sweep_action \<Rightarrow> nat option" where
  "action_line NoGrading = None"
| "action_line (Adapt n) = Some n"
| "action_line (SkipReflection n) = Some n"
| "action_line (RevertFinalization n) = Some n"
| "action_line (Grade n k) = Some n"

text \<open>
  Examples: a halted segment with a fully graded round; a configuration with two rounds
  per segment and the halted segment's reference as \<open>debug_force_vref\<close>; a configuration
  with three grades per round.
\<close>

definition ex_halted :: verse where
  "ex_halted = ex_verse\<lparr>ai_halted := Some True,
     reflection_loops := Some [empty_loop\<lparr>grades := Some [\<lparr>comment = ''a'', grade = 40\<rparr>, \<lparr>comment = ''b'', grade = 60\<rparr>],
        average_grade := Some 50\<rparr>]\<rparr>"

definition ex_debug_config :: config where
  "ex_debug_config = ex_config\<lparr>reflection_loops_per_verse := Some 2, debug_force_vref := Some (JStr ''GEN 1:1'')\<rparr>"

definition ex_config3 :: config where
  "ex_config3 = ex_config\<lparr>grades_per_reflection_loop := 3\<rparr>"

text \<open>
  Further examples: a service that answers every grading request with grades of 70 and
  is asked for nothing else; a configuration with three grades per round and two rounds
  per segment; a segment whose only round holds two grades and the draft they were
  given on, before and after three more grades.
\<close>

definition ex_services :: services where
  "ex_services = \<lparr>adaptation = (\<lambda>v. Inl TypeError),
     comments = (\<lambda>vref. Inr []),
     grading = (\<lambda>v commonContext n. replicate n (Inr \<lparr>comment = ''c'', grade = 70\<rparr>)),
     reflection = (\<lambda>v commonContext. Inl TypeError)\<rparr>"

definition ex_config3_2 :: config where
  "ex_config3_2 = ex_config3\<lparr>reflection_loops_per_verse := Some 2\<rparr>"

definition ex_verse_reflected :: verse where
  "ex_verse_reflected = ex_verse\<lparr>
     reflection_loops := Some [empty_loop\<lparr>
        grades := Some [\<lparr>comment = ''a'', grade = 40\<rparr>, \<lparr>comment = ''b'', grade = 60\<rparr>],
        graded_verse := Some (JStr ''draft0'')\<rparr>]\<rparr>"

definition ex_verse_regraded :: verse where
  "ex_verse_regraded = ex_verse\<lparr>
     reflection_loops := Some [empty_loop\<lparr>
        grades := Some [\<lparr>comment = ''a'', grade = 40\<rparr>, \<lparr>comment = ''b'', grade = 60\<rparr>],
        graded_verse := Some (JStr ''draft0'')\<rparr>,
        empty_loop\<lparr>
        grades := Some [\<lparr>comment = ''c'', grade = 70\<rparr>, \<lparr>comment = ''c'', grade = 70\<rparr>,
                        \<lparr>comment = ''c'', grade = 70\<rparr>]\<rparr>]\<rparr>"

definition ex_verse_graded3 :: verse where
  "ex_verse_graded3 = ex_verse\<lparr>
     reflection_loops := Some [empty_loop\<lparr>
        grades := Some [\<lparr>comment = ''a'', grade = 40\<rparr>, \<lparr>comment = ''b'', grade = 60\<rparr>,
                        \<lparr>comment = ''c'', grade = 70\<rparr>]\<rparr>]\<rparr>"

section \<open>Ingestion of changed files (reflectionWorker)\<close>


definition SOURCE_KEY :: "string list" where
  "SOURCE_KEY = [''source'']"

definition TRANSLATION_KEY :: "string list" where
  "TRANSLATION_KEY = [''fresh_translation'', ''text'']"




definition resetVerseTo :: "verse \<Rightarrow> json \<Rightarrow> js_error + verse" where
  "resetVerseTo v text =
     err_bind (setKey (data v) TRANSLATION_KEY text) (\<lambda>d.
       Inr (v\<lparr>data := d,
              reflection_loops := Some [],
              reflection_is_finalized :=
                (if reflection_is_finalized v = Some True then Some False else reflection_is_finalized v),
              reflection_finalized_grade :=
                (case reflection_finalized_grade v of
                   None \<Rightarrow> None
                 | Some g \<Rightarrow> if g \<noteq> 0 then None else Some g),
              reflection_finalized_comment :=
                (case reflection_finalized_comment v of
                   None \<Rightarrow> None
                 | Some j \<Rightarrow> if truthy j then Some JNull else Some j),
              comment_mod_loop_count :=
                (case comment_mod_loop_count v of
                   None \<Rightarrow> None
                 | Some k \<Rightarrow> if k \<noteq> 0 then Some 0 else Some k)\<rparr>))"

text \<open>
  \<open>resetVerseTo\<close> clears the fields before it writes the translation: the segment as it
  is left when that write raises.
\<close>

definition resetVerseTo_raised :: "verse \<Rightarrow> verse" where
  "resetVerseTo_raised v =
     v\<lparr>reflection_loops := Some [],
       reflection_is_finalized :=
         (if reflection_is_finalized v = Some True then Some False else reflection_is_finalized v),
       reflection_finalized_grade :=
         (case reflection_finalized_grade v of
            None \<Rightarrow> None
          | Some g \<Rightarrow> if g \<noteq> 0 then None else Some g),
       reflection_finalized_comment :=
         (case reflection_finalized_comment v of
            None \<Rightarrow> None
          | Some j \<Rightarrow> if truthy j then Some JNull else Some j),
       comment_mod_loop_count :=
         (case comment_mod_loop_count v of
            None \<Rightarrow> None
          | Some k \<Rightarrow> if k \<noteq> 0 then Some 0 else Some k)\<rparr>"

















section \<open>The operations that change a segment\<close>

text \<open>
  Every place where the engine or the worker writes to a segment, as one operation: the
  stashing of averages by \<open>computeVerseGrade\<close>, \<open>finalizeVerse\<close>, the storing of grades,
  the catch-up after a comment change, the storing of an adaptation and of a reflection,
  \<open>resetVerseTo\<close>, and the writing of a new source text.
\<close>

datatype verse_op =
    OpComputeVerseGrade
  | OpFinalizeVerse
  | OpAppendGrades "gradeResponse list"
  | OpSkipReflection
  | OpStoreAdaptation json json
  | OpStoreReflection json json "json option"
  | OpResetVerseTo json
  | OpSetSource string

fun applyOp :: "config \<Rightarrow> verse_op \<Rightarrow> verse \<Rightarrow> js_error + verse" where
  "applyOp c OpComputeVerseGrade v = err_bind (computeVerseGrade v c) (\<lambda>r. Inr (snd r))"
| "applyOp c OpFinalizeVerse v = finalizeVerse v c"
| "applyOp c (OpAppendGrades newGrades) v = Inr (appendGrades v newGrades)"
| "applyOp c OpSkipReflection v = skipReflection v c"
| "applyOp c (OpStoreAdaptation t p) v = storeAdaptation v c t p"
| "applyOp c (OpStoreReflection t p s) v = storeReflection v c t p s"
| "applyOp c (OpResetVerseTo text) v = resetVerseTo v text"
| "applyOp c (OpSetSource new_text) v =
     err_bind (setKey (data v) SOURCE_KEY (JStr new_text)) (\<lambda>d. Inr (v\<lparr>data := d\<rparr>))"

text \<open>An example: the segment with two rounds, marked as touched by a comment at round 1.\<close>

definition ex_verse_commented :: verse where
  "ex_verse_commented = ex_verse2\<lparr>comment_mod_loop_count := Some 1\<rparr>"

definition ex_verse_commented_reset :: verse where
  "ex_verse_commented_reset = empty_verse\<lparr>
     data := JObj [(''vref'', JStr ''GEN 1:2''),
                   (''fresh_translation'', JObj [(''text'', JStr ''draft1'')]),
                   (''translation_notes'', JStr ''note2'')],
     reflection_loops := Some [],
     comment_mod_loop_count := Some 0\<rparr>"

section \<open>The checkpoint store (reflectionUtils)\<close>

text \<open>
  The file system is a map from paths to contents. \<open>JSON.stringify\<close> and \<open>JSON.parse\<close>
  belong to the platform and are parameters: \<open>stringify\<close> returns a string or
  \<open>undefined\<close>, \<open>parse\<close> a value or a \<open>SyntaxError\<close>. Strings are byte strings, so
  the white space of \<open>trim\<close> is the ASCII white space.
\<close>

type_synonym files = "string \<Rightarrow> string option"

text \<open>\<open>lines.join(sep)\<close> for a one-character separator; \<open>undefined\<close> is joined as the empty string.\<close>

fun join_with :: "char \<Rightarrow> string option list \<Rightarrow> string" where
  "join_with sep [] = []"
| "join_with sep [x] = (case x of None \<Rightarrow> [] | Some s \<Rightarrow> s)"
| "join_with sep (x # y # rest) = (case x of None \<Rightarrow> [] | Some s \<Rightarrow> s) @ sep # join_with sep (y # rest)"

text \<open>\<open>content.split(sep)\<close> for a one-character separator: the empty string gives one empty line.\<close>

fun split_on :: "char \<Rightarrow> string \<Rightarrow> string list" where
  "split_on sep [] = [[]]"
| "split_on sep (ch # rest) =
     (if ch = sep then [] # split_on sep rest
      else (case split_on sep rest of
              [] \<Rightarrow> [[ch]]
            | w # ws \<Rightarrow> (ch # w) # ws))"

definition is_space :: "char \<Rightarrow> bool" where
  "is_space ch = (ch \<in> set [CHR 0x09, CHR 0x0A, CHR 0x0B, CHR 0x0C, CHR 0x0D, CHR 0x20])"

definition js_trim :: "string \<Rightarrow> string" where
  "js_trim s = rev (dropWhile is_space (rev (dropWhile is_space s)))"

text \<open>
  \<open>saveJsonl\<close>: the content is written to the temporary file \<open>filename~\<close>, which is then
  renamed to \<open>filename\<close>.
\<close>

definition saveJsonl :: "('a \<Rightarrow> string option) \<Rightarrow> files \<Rightarrow> string \<Rightarrow> 'a list \<Rightarrow> files" where
  "saveJsonl stringify fs filename dat =
     (let tempFilename = filename @ ''~'';
          content = join_with (CHR 0x0A) (map stringify dat);
          fs1 = fs(tempFilename \<mapsto> content)
      in (fs1(tempFilename := None))(filename := fs1 tempFilename))"

text \<open>\<open>lines.map(line => JSON.parse(line))\<close>: the first \<open>SyntaxError\<close> ends it.\<close>

fun parseAll :: "(string \<Rightarrow> js_error + 'a) \<Rightarrow> string list \<Rightarrow> js_error + 'a list" where
  "parseAll parse [] = Inr []"
| "parseAll parse (line # rest) =
     err_bind (parse line) (\<lambda>v. err_bind (parseAll parse rest) (\<lambda>vs. Inr (v # vs)))"

text \<open>
  \<open>loadJsonl(file, defaultValue = null)\<close>: a missing file gives the default, or the
  error when there is none.
\<close>

definition loadJsonl ::
  "(string \<Rightarrow> js_error + 'a) \<Rightarrow> files \<Rightarrow> string \<Rightarrow> 'a list option \<Rightarrow> js_error + 'a list" where
  "loadJsonl parse fs file defaultValue =
     (case fs file of
        None \<Rightarrow> (case defaultValue of None \<Rightarrow> Inl ENOENT | Some d \<Rightarrow> Inr d)
      | Some content \<Rightarrow>
          parseAll parse (filter (\<lambda>line. js_trim line \<noteq> []) (split_on (CHR 0x0A) content)))"

text \<open>
  For the examples, a serializer and a parser of the values of the model in the compact
  form \<open>JSON.stringify\<close> writes: a property whose value is \<open>undefined\<close> or a function is
  left out, such an array element is written \<open>null\<close>, control characters are escaped. The
  parser works with fuel, one unit per value or separator read.
\<close>

definition hex_digit :: "nat \<Rightarrow> char" where
  "hex_digit n = ''0123456789abcdef'' ! n"

definition escape_char :: "char \<Rightarrow> string" where
  "escape_char ch =
     (if ch = CHR 0x22 then [CHR 0x5C, CHR 0x22]
      else if ch = CHR 0x5C then [CHR 0x5C, CHR 0x5C]
      else if ch = CHR 0x0A then [CHR 0x5C, CHR ''n'']
      else if ch = CHR 0x0D then [CHR 0x5C, CHR ''r'']
      else if ch = CHR 0x09 then [CHR 0x5C, CHR ''t'']
      else if ch = CHR 0x08 then [CHR 0x5C, CHR ''b'']
      else if ch = CHR 0x0C then [CHR 0x5C, CHR ''f'']
      else if (of_char ch :: nat) < 32 then
        [CHR 0x5C, CHR ''u'', CHR ''0'', CHR ''0'',
         hex_digit ((of_char ch :: nat) div 16), hex_digit ((of_char ch :: nat) mod 16)]
      else [ch])"

definition quote :: "string \<Rightarrow> string" where
  "quote s = CHR 0x22 # concat (map escape_char s) @ [CHR 0x22]"

fun json_stringify :: "json \<Rightarrow> string option" where
  "json_stringify JUndefined = None"
| "json_stringify JNull = Some ''null''"
| "json_stringify (JBool b) = Some (if b then ''true'' else ''false'')"
| "json_stringify (JNum i) = Some (string_of_int i)"
| "json_stringify (JStr s) = Some (quote s)"
| "json_stringify (JArr xs) =
     Some (CHR ''['' #
           join_with (CHR '','')
             (map (\<lambda>x. case json_stringify x of None \<Rightarrow> Some ''null'' | Some s \<Rightarrow> Some s) xs) @
           '']'')"
| "json_stringify (JBuiltin f) = None"
| "json_stringify JObjectPrototype = Some ''{}''"
| "json_stringify (JObj m) =
     Some (CHR ''{'' #
           join_with (CHR '','')
             (concat (map (\<lambda>kv. case json_stringify (snd kv) of
                                   None \<Rightarrow> []
                                 | Some s \<Rightarrow> [Some (quote (fst kv) @ CHR '':'' # s)]) m)) @
           ''}'')"

definition skip_ws :: "string \<Rightarrow> string" where
  "skip_ws s = dropWhile is_space s"

definition hex_value :: "char \<Rightarrow> nat option" where
  "hex_value ch =
     (let n = (of_char ch :: nat)
      in if 48 \<le> n \<and> n \<le> 57 then Some (n - 48)
         else if 97 \<le> n \<and> n \<le> 102 then Some (n - 87)
         else if 65 \<le> n \<and> n \<le> 70 then Some (n - 55)
         else None)"

definition unescape :: "char \<Rightarrow> char option" where
  "unescape e =
     (if e = CHR 0x22 then Some (CHR 0x22)
      else if e = CHR 0x5C then Some (CHR 0x5C)
      else if e = CHR ''/'' then Some (CHR ''/'')
      else if e = CHR ''n'' then Some (CHR 0x0A)
      else if e = CHR ''r'' then Some (CHR 0x0D)
      else if e = CHR ''t'' then Some (CHR 0x09)
      else if e = CHR ''b'' then Some (CHR 0x08)
      else if e = CHR ''f'' then Some (CHR 0x0C)
      else None)"

fun parse_string_body :: "string \<Rightarrow> string \<Rightarrow> (string \<times> string) option" where
  "parse_string_body acc [] = None"
| "parse_string_body acc (ch # cs) =
     (if ch = CHR 0x22 then Some (rev acc, cs)
      else if ch = CHR 0x5C then
        (case cs of
           [] \<Rightarrow> None
         | e # cs1 \<Rightarrow>
             if e = CHR ''u'' then
               (case cs1 of
                  h1 # h2 # h3 # h4 # r \<Rightarrow>
                    (case (hex_value h1, hex_value h2, hex_value h3, hex_value h4) of
                       (Some a, Some b, Some c, Some d) \<Rightarrow>
                         if a = 0 \<and> b = 0 then parse_string_body (char_of (16 * c + d) # acc) r
                         else None
                     | _ \<Rightarrow> None)
                | _ \<Rightarrow> None)
             else
               (case unescape e of
                  None \<Rightarrow> None
                | Some u \<Rightarrow> parse_string_body (u # acc) cs1))
      else parse_string_body (ch # acc) cs)"

definition is_digit :: "char \<Rightarrow> bool" where
  "is_digit ch = (48 \<le> (of_char ch :: nat) \<and> (of_char ch :: nat) \<le> 57)"

definition digits_value :: "string \<Rightarrow> nat" where
  "digits_value ds = foldl (\<lambda>n ch. 10 * n + ((of_char ch :: nat) - 48)) 0 ds"

definition parse_number :: "string \<Rightarrow> (json \<times> string) option" where
  "parse_number s =
     (let neg = (case s of [] \<Rightarrow> False | ch # r \<Rightarrow> ch = CHR ''-'');
          t = (if neg then tl s else s);
          ds = takeWhile is_digit t
      in if ds = [] then None
         else Some (JNum (if neg then - int (digits_value ds) else int (digits_value ds)),
                    dropWhile is_digit t))"

fun parse_value :: "nat \<Rightarrow> string \<Rightarrow> (json \<times> string) option"
  and parse_elems :: "nat \<Rightarrow> string \<Rightarrow> json list \<Rightarrow> (json \<times> string) option"
  and parse_members :: "nat \<Rightarrow> string \<Rightarrow> (string \<times> json) list \<Rightarrow> (json \<times> string) option" where
  "parse_value 0 s = None"
| "parse_value (Suc n) s =
     (let t = skip_ws s
      in if take 4 t = ''null'' then Some (JNull, drop 4 t)
         else if take 4 t = ''true'' then Some (JBool True, drop 4 t)
         else if take 5 t = ''false'' then Some (JBool False, drop 5 t)
         else (case t of
                 [] \<Rightarrow> None
               | ch # r \<Rightarrow>
                   if ch = CHR 0x22 then
                     (case parse_string_body [] r of
                        None \<Rightarrow> None
                      | Some (str, r1) \<Rightarrow> Some (JStr str, r1))
                   else if ch = CHR ''['' then
                     (case skip_ws r of
                        [] \<Rightarrow> None
                      | c2 # r2 \<Rightarrow> if c2 = CHR '']'' then Some (JArr [], r2) else parse_elems n r [])
                   else if ch = CHR ''{'' then
                     (case skip_ws r of
                        [] \<Rightarrow> None
                      | c2 # r2 \<Rightarrow> if c2 = CHR ''}'' then Some (JObj [], r2) else parse_members n r [])
                   else parse_number t))"
| "parse_elems 0 s acc = None"
| "parse_elems (Suc n) s acc =
     (case parse_value n s of
        None \<Rightarrow> None
      | Some (v, r) \<Rightarrow>
          (case skip_ws r of
             [] \<Rightarrow> None
           | ch # r1 \<Rightarrow>
               if ch = CHR '','' then parse_elems n r1 (v # acc)
               else if ch = CHR '']'' then Some (JArr (rev (v # acc)), r1)
               else None))"
| "parse_members 0 s acc = None"
| "parse_members (Suc n) s acc =
     (case skip_ws s of
        [] \<Rightarrow> None
      | q # r \<Rightarrow>
          if q \<noteq> CHR 0x22 then None
          else
            (case parse_string_body [] r of
               None \<Rightarrow> None
             | Some (k, r1) \<Rightarrow>
                 (case skip_ws r1 of
                    [] \<Rightarrow> None
                  | colon # r2 \<Rightarrow>
                      if colon \<noteq> CHR '':'' then None
                      else
                        (case parse_value n r2 of
                           None \<Rightarrow> None
                         | Some (v, r3) \<Rightarrow>
                             (case skip_ws r3 of
                                [] \<Rightarrow> None
                              | ch # r4 \<Rightarrow>
                                  if ch = CHR '','' then parse_members n r4 ((k, v) # acc)
                                  else if ch = CHR ''}'' then Some (JObj (rev ((k, v) # acc)), r4)
                                  else None)))))"

definition json_parse :: "string \<Rightarrow> js_error + json" where
  "json_parse s =
     (case parse_value (Suc (length s)) s of
        None \<Rightarrow> Inl SyntaxError
      | Some (v, r) \<Rightarrow> if skip_ws r = [] then Inr v else Inl SyntaxError)"

text \<open>
  Two segments as they stand in the checkpoint file: one with a round of two grades,
  one with empty \<open>reflection_loops\<close>.
\<close>

definition ex_segments :: "json list" where
  "ex_segments =
     [JObj [(''vref'', JStr ''GEN 1:1''),
            (''fresh_translation'', JObj [(''text'', JStr (''In the '' @ [CHR 0x22] @ ''beginning'' @ [CHR 0x22]))]),
            (''reflection_loops'',
               JArr [JObj [(''grades'', JArr [JObj [(''comment'', JStr (''line one'' @ [CHR 0x0A] @ ''line two'')),
                                                    (''grade'', JNum 40)],
                                              JObj [(''comment'', JStr ''b''), (''grade'', JNum 60)]]),
                           (''average_grade'', JNum 50)]]),
            (''reflection_is_finalized'', JBool False)],
      JObj [(''vref'', JStr ''GEN 1:2''),
            (''reflection_loops'', JArr []),
            (''comment_mod_loop_count'', JNum (- 1)),
            (''reflection_finalized_grade'', JNull)]]"

section \<open>The key-path accessor never throws\<close>

lemma err_bind_Inr [simp]: "err_bind (Inr x) f = f x"
  by (simp add: err_bind_def)

lemma err_bind_Inl [simp]: "err_bind (Inl e) f = Inl e"
  by (simp add: err_bind_def)

lemma lookUpKey_resolve:
  "lookUpKey d ks dflt niv =
     Inr (case resolve d ks of
            None \<Rightarrow> dflt
          | Some v \<Rightarrow> if v = JNull \<and> \<not> niv then dflt else v)"
proof (induction d ks rule: resolve.induct)
  case (1 v)
  show ?case by simp
next
  case (2 m k ks)
  then show ?case
    by (cases "js_property (JObj m) (key_string k)") (auto simp del: js_property.simps)
next
  case (3 k ks)
  then show ?case
    by (cases "js_property JObjectPrototype (key_string k)") (auto simp del: js_property.simps)
next
  case (4 xs i ks)
  then show ?case by (cases "0 \<le> i \<and> i < int (length xs)") (auto simp: arr_index_def)
qed (auto split: pkey.splits)



section \<open>Finalizing twice\<close>

lemma cg_Some: "average_grade l = Some a \<Longrightarrow> computeGradeForReflectionLoop l c = (Some a, l)"
  by (simp add: computeGradeForReflectionLoop_def)

lemma cg_None:
  "average_grade l = None \<Longrightarrow>
   computeGradeForReflectionLoop l c =
     (let gs = (case grades l of None \<Rightarrow> [] | Some g \<Rightarrow> g) in
      if gs = [] then (None, l)
      else (Some (of_int (sum_list (map grade gs)) / of_nat (length gs)),
            if grades_per_reflection_loop c \<le> int (length gs)
            then l\<lparr>average_grade := Some (of_int (sum_list (map grade gs)) / of_nat (length gs))\<rparr>
            else l))"
  by (simp add: computeGradeForReflectionLoop_def Let_def)

lemma computeGrade_idem:
  assumes "computeGradeForReflectionLoop l c = (r, l1)"
  shows "computeGradeForReflectionLoop l1 c = (r, l1)"
proof (cases "average_grade l")
  case (Some a)
  with assms cg_Some[OF Some, of c] show ?thesis by simp
next
  case None
  let ?gs = "case grades l of None \<Rightarrow> [] | Some g \<Rightarrow> g"
  let ?avg = "of_int (sum_list (map grade ?gs)) / of_nat (length ?gs) :: rat"
  show ?thesis
  proof (cases "?gs = [] \<or> \<not> grades_per_reflection_loop c \<le> int (length ?gs)")
    case True
    with assms cg_None[OF None, of c] have "l1 = l" by (auto simp: Let_def split: if_splits)
    with assms show ?thesis by simp
  next
    case False
    with assms cg_None[OF None, of c] have "l1 = l\<lparr>average_grade := Some ?avg\<rparr>" "r = Some ?avg"
      by (auto simp: Let_def)
    then show ?thesis by (simp add: cg_Some)
  qed
qed

lemma gradeWalk_idem:
  "gradeWalk c xs = (r, ys) \<Longrightarrow> gradeWalk c ys = (r, ys)"
proof (induction xs arbitrary: r ys)
  case Nil
  then show ?case by simp
next
  case (Cons l ls)
  obtain q l1 where q: "computeGradeForReflectionLoop l c = (q, l1)" by (cases "computeGradeForReflectionLoop l c")
  show ?case
  proof (cases q)
    case None
    obtain r2 ls2 where w: "gradeWalk c ls = (r2, ls2)" by (cases "gradeWalk c ls")
    from Cons.prems q None w have "r = r2" "ys = l1 # ls2" by auto
    moreover from Cons.IH[OF w] have "gradeWalk c ls2 = (r2, ls2)" .
    moreover from computeGrade_idem[OF q] None have "computeGradeForReflectionLoop l1 c = (None, l1)" by simp
    ultimately show ?thesis by simp
  next
    case (Some g)
    from Cons.prems q Some have "r = Some g" "ys = l1 # ls" by auto
    moreover from computeGrade_idem[OF q] Some have "computeGradeForReflectionLoop l1 c = (Some g, l1)" by simp
    ultimately show ?thesis by simp
  qed
qed

lemma computeGrade_shape:
  assumes "computeGradeForReflectionLoop l c = (r, l1)"
  shows "\<exists>a. l1 = l\<lparr>average_grade := a\<rparr>"
proof (cases "average_grade l")
  case (Some a)
  with assms cg_Some[OF Some, of c] have "l1 = l\<lparr>average_grade := Some a\<rparr>" by simp
  then show ?thesis ..
next
  case None
  with assms cg_None[OF None, of c] have "l1 = l\<lparr>average_grade := None\<rparr> \<or> (\<exists>a. l1 = l\<lparr>average_grade := Some a\<rparr>)"
    by (auto simp: Let_def split: if_splits)
  then show ?thesis by blast
qed

lemma gradeWalk_shape:
  "gradeWalk c xs = (r, ys) \<Longrightarrow> list_all2 (\<lambda>x y. \<exists>a. y = x\<lparr>average_grade := a\<rparr>) xs ys"
proof (induction xs arbitrary: r ys)
  case Nil
  then show ?case by simp
next
  case (Cons l ls)
  have refl: "list_all2 (\<lambda>x y. \<exists>a. y = x\<lparr>average_grade := a\<rparr>) ls ls"
  proof (rule list_all2_refl)
    fix x :: reflectionLoop
    have "x = x\<lparr>average_grade := average_grade x\<rparr>" by simp
    then show "\<exists>a. x = x\<lparr>average_grade := a\<rparr>" ..
  qed
  obtain q l1 where q: "computeGradeForReflectionLoop l c = (q, l1)" by (cases "computeGradeForReflectionLoop l c")
  note sh = computeGrade_shape[OF q]
  show ?case
  proof (cases q)
    case None
    obtain r2 ls2 where w: "gradeWalk c ls = (r2, ls2)" by (cases "gradeWalk c ls")
    from Cons.prems q None w have "ys = l1 # ls2" by auto
    with Cons.IH[OF w] sh show ?thesis by simp
  next
    case (Some g)
    from Cons.prems q Some have "ys = l1 # ls" by auto
    with refl sh show ?thesis by simp
  qed
qed

lemma lookUpKey_Inr: "\<exists>r. lookUpKey d ks dflt niv = Inr r"
  by (simp add: lookUpKey_resolve)

lemma err_bind_eq_Inr: "err_bind m f = Inr y \<longleftrightarrow> (\<exists>x. m = Inr x \<and> f x = Inr y)"
  by (cases m) simp_all

lemma computeVerseGrade_eq:
  assumes "lookUpKey (data v) (map KStr (reference_key c)) JNull True = Inr r"
  shows "computeVerseGrade v c =
     (if r = JNull \<or> r = JUndefined then Inr (None, v)
      else case reflection_loops v of
             None \<Rightarrow> Inr (None, v)
           | Some ls \<Rightarrow>
               if ls = [] then Inr (None, v)
               else if verseIsFinalized v then Inr (reflection_finalized_grade v, v)
               else Inr (fst (gradeWalk c (rev ls)),
                         v\<lparr>reflection_loops := Some (rev (snd (gradeWalk c (rev ls))))\<rparr>))"
  by (simp add: computeVerseGrade_def assms split: option.splits prod.splits)

lemma computeVerseGrade_not_walked:
  assumes "\<not> walked v c"
  shows "\<exists>g. computeVerseGrade v c = Inr (g, v)"
proof -
  obtain r where r: "lookUpKey (data v) (map KStr (reference_key c)) JNull True = Inr r"
    using lookUpKey_Inr by blast
  from assms r show ?thesis
    by (auto simp: computeVerseGrade_eq[OF r] walked_def split: option.splits)
qed

lemma computeVerseGrade_walked:
  assumes "walked v c" and "reflection_loops v = Some ls"
  shows "computeVerseGrade v c =
           Inr (fst (gradeWalk c (rev ls)), v\<lparr>reflection_loops := Some (memoized c ls)\<rparr>)"
proof -
  obtain r where r: "lookUpKey (data v) (map KStr (reference_key c)) JNull True = Inr r"
    using lookUpKey_Inr by blast
  from assms r show ?thesis
    by (auto simp: computeVerseGrade_eq[OF r] walked_def memoized_def)
qed

lemma gradeWalk_length: "length (snd (gradeWalk c xs)) = length xs"
  using gradeWalk_shape[of c xs "fst (gradeWalk c xs)" "snd (gradeWalk c xs)"]
  by (simp add: list_all2_lengthD)

lemma gradeWalk_idem2: "gradeWalk c (snd (gradeWalk c xs)) = gradeWalk c xs"
  using gradeWalk_idem[of c xs "fst (gradeWalk c xs)" "snd (gradeWalk c xs)"] by simp

lemma computeVerseGrade_total: "\<exists>g v1. computeVerseGrade v c = Inr (g, v1)"
proof (cases "walked v c")
  case False
  from computeVerseGrade_not_walked[OF False] show ?thesis by blast
next
  case True
  then obtain ls where "reflection_loops v = Some ls" by (auto simp: walked_def)
  from computeVerseGrade_walked[OF True this] show ?thesis by blast
qed

lemma memoized_length [simp]: "length (memoized c ls) = length ls"
  by (simp add: memoized_def gradeWalk_length)

lemma memoized_Nil_iff [simp]: "memoized c ls = [] \<longleftrightarrow> ls = []"
  using memoized_length[of c ls] by (metis length_0_conv)

lemma memoized_idem [simp]: "memoized c (memoized c ls) = memoized c ls"
  by (simp add: memoized_def gradeWalk_idem2)

lemma memoized_fst: "fst (gradeWalk c (rev (memoized c ls))) = fst (gradeWalk c (rev ls))"
  by (simp add: memoized_def gradeWalk_idem2)

lemma computeVerseGrade_idem:
  assumes "computeVerseGrade v c = Inr (g, v1)"
  shows "computeVerseGrade v1 c = Inr (g, v1)"
proof (cases "walked v c")
  case False
  from computeVerseGrade_not_walked[OF False] assms have "v1 = v" by auto
  with assms show ?thesis by simp
next
  case True
  then obtain ls where ls: "reflection_loops v = Some ls" "ls \<noteq> []" by (auto simp: walked_def)
  from computeVerseGrade_walked[OF True ls(1)] assms
  have g: "g = fst (gradeWalk c (rev ls))" and v1: "v1 = v\<lparr>reflection_loops := Some (memoized c ls)\<rparr>"
    by auto
  have w1: "walked v1 c" using True ls by (simp add: walked_def v1 verseIsFinalized_def)
  have "computeVerseGrade v1 c =
          Inr (fst (gradeWalk c (rev (memoized c ls))),
               v1\<lparr>reflection_loops := Some (memoized c (memoized c ls))\<rparr>)"
    by (rule computeVerseGrade_walked[OF w1]) (simp add: v1)
  then show ?thesis by (simp add: memoized_fst g v1)
qed

lemma list_all2_map_eq: "list_all2 (\<lambda>x y. f y = f x) xs ys \<Longrightarrow> map f ys = map f xs"
  by (induction rule: list_all2_induct) auto

lemma gradeWalk_map:
  assumes "\<And>x a. f (x\<lparr>average_grade := a\<rparr>) = f x"
  shows "map f (snd (gradeWalk c xs)) = map f xs"
proof -
  have "list_all2 (\<lambda>x y. \<exists>a. y = x\<lparr>average_grade := a\<rparr>) xs (snd (gradeWalk c xs))"
    using gradeWalk_shape[of c xs "fst (gradeWalk c xs)" "snd (gradeWalk c xs)"] by simp
  then have "list_all2 (\<lambda>x y. f y = f x) xs (snd (gradeWalk c xs))"
    by (rule list_all2_mono) (auto simp: assms)
  then show ?thesis by (rule list_all2_map_eq)
qed

lemma memoized_map:
  assumes "\<And>x a. f (x\<lparr>average_grade := a\<rparr>) = f x"
  shows "map f (memoized c ls) = map f ls"
  using gradeWalk_map[of f c "rev ls", OF assms] by (simp add: memoized_def rev_map[symmetric])

lemma memoized_last:
  assumes "\<And>x a. f (x\<lparr>average_grade := a\<rparr>) = f x" and "ls \<noteq> []"
  shows "f (last (memoized c ls)) = f (last ls)"
proof -
  have "f (last (memoized c ls)) = last (map f (memoized c ls))"
    using assms(2) by (simp add: last_map)
  also have "\<dots> = last (map f ls)" by (simp only: memoized_map[of f, OF assms(1)])
  also have "\<dots> = f (last ls)" using assms(2) by (simp add: last_map)
  finally show ?thesis .
qed

lemma verseNeedsFinalization_memo:
  assumes "reflection_loops v = Some ls"
  shows "verseNeedsFinalization (v\<lparr>reflection_loops := Some (memoized c ls)\<rparr>) c =
         verseNeedsFinalization v c"
proof (cases "ls = []")
  case True
  with assms have "v\<lparr>reflection_loops := Some (memoized c ls)\<rparr> = v" by (simp add: memoized_def)
  then show ?thesis by simp
next
  case False
  have g: "grades (last (memoized c ls)) = grades (last ls)"
    by (rule memoized_last) (simp_all add: False)
  show ?thesis
    using assms by (simp add: verseNeedsFinalization_def computeReflectionLoopsNeeded_def g)
qed

lemma applyBest_finalized:
  assumes "applyBest v1 c ls bi g = Inr v2"
  shows "verseIsFinalized v2"
  using assms
  by (auto simp: applyBest_def err_bind_eq_Inr Let_def verseIsFinalized_def split: option.splits)

lemma finalizeVerse_finalized: "verseIsFinalized v \<Longrightarrow> finalizeVerse v c = Inr v"
  by (simp add: finalizeVerse_def split: option.splits)

lemma finalizeVerse_unfold:
  assumes "reflection_loops u = Some ls0" "\<not> verseIsFinalized u"
    and "verseNeedsFinalization u c = Inr True"
    and "computeVerseGrade u c = Inr (g, v1)" and "reflection_loops v1 = Some ls"
  shows "finalizeVerse u c =
        (case findBest None (slice_start (length ls) (case comment_mod_loop_count v1 of None \<Rightarrow> 0 | Some k \<Rightarrow> k))
                (drop (slice_start (length ls) (case comment_mod_loop_count v1 of None \<Rightarrow> 0 | Some k \<Rightarrow> k)) ls) of
           None \<Rightarrow> Inr v1
         | Some (bi, bestGrade) \<Rightarrow> applyBest v1 c ls bi bestGrade)"
  using assms by (simp add: finalizeVerse_def Let_def split: option.splits prod.splits)

lemma finalizeVerse_idem:
  assumes "finalizeVerse v c = Inr v2"
  shows "finalizeVerse v2 c = Inr v2"
proof (cases "reflection_loops v = None \<or> verseIsFinalized v \<or> verseNeedsFinalization v c = Inr False")
  case True
  have "finalizeVerse v c = Inr v"
  proof (cases "reflection_loops v")
    case None
    then show ?thesis by (simp add: finalizeVerse_def)
  next
    case (Some ls0)
    with True show ?thesis by (auto simp: finalizeVerse_def)
  qed
  with assms show ?thesis by simp
next
  case False
  then obtain ls0 where ls0: "reflection_loops v = Some ls0" and nf: "\<not> verseIsFinalized v"
    and nn: "verseNeedsFinalization v c \<noteq> Inr False" by auto
  from assms ls0 nf nn have needs: "verseNeedsFinalization v c = Inr True"
    by (cases "verseNeedsFinalization v c") (auto simp: finalizeVerse_def)
  obtain g v1 where cv: "computeVerseGrade v c = Inr (g, v1)"
    using computeVerseGrade_total by blast
  have v1_facts: "verseNeedsFinalization v1 c = Inr True \<and> \<not> verseIsFinalized v1 \<and>
                  (\<exists>ls. reflection_loops v1 = Some ls)"
  proof (cases "walked v c")
    case False
    from computeVerseGrade_not_walked[OF False] cv have "v1 = v" by auto
    with needs nf ls0 show ?thesis by simp
  next
    case True
    from computeVerseGrade_walked[OF True ls0] cv
    have v1: "v1 = v\<lparr>reflection_loops := Some (memoized c ls0)\<rparr>" by auto
    with verseNeedsFinalization_memo[OF ls0, of c] needs nf show ?thesis
      by (simp add: verseIsFinalized_def)
  qed
  then obtain ls where ls: "reflection_loops v1 = Some ls" by blast
  let ?first = "slice_start (length ls) (case comment_mod_loop_count v1 of None \<Rightarrow> 0 | Some k \<Rightarrow> k)"
  let ?rhs = "case findBest None ?first (drop ?first ls) of
           None \<Rightarrow> Inr v1
         | Some (bi, bestGrade) \<Rightarrow> applyBest v1 c ls bi bestGrade"
  have e1: "finalizeVerse v c = ?rhs"
    by (rule finalizeVerse_unfold[OF ls0 nf needs cv ls])
  show ?thesis
  proof (cases "findBest None ?first (drop ?first ls)")
    case None
    with e1 assms have v2: "v2 = v1" by simp
    have "finalizeVerse v1 c = ?rhs"
      using v1_facts ls computeVerseGrade_idem[OF cv]
      by (intro finalizeVerse_unfold[where ?ls0.0 = ls]) auto
    with None v2 show ?thesis by simp
  next
    case (Some b)
    with e1 assms have "applyBest v1 c ls (fst b) (snd b) = Inr v2" by (cases b) simp
    from applyBest_finalized[OF this] show ?thesis by (rule finalizeVerse_finalized)
  qed
qed

text \<open>
  Claim C7. Finalizing twice changes nothing the second time: \<open>finalizeVerse\<close> returns an
  already finalized segment as it is, and whatever segment a call of \<open>finalizeVerse\<close>
  returns is returned unchanged by a second call.
\<close>

theorem finalizeVerse_idempotent:
  "(verseIsFinalized v \<longrightarrow> finalizeVerse v c = Inr v) \<and>
   (finalizeVerse v c = Inr v2 \<longrightarrow> finalizeVerse v2 c = Inr v2)"
  using finalizeVerse_finalized finalizeVerse_idem by blast

lemma ex_finalize: "finalizeVerse ex_verse ex_config = Inr ex_verse_finalized"
  by code_simp

theorem finalizeVerse_idempotent_witness:
  "verseIsFinalized ex_verse_finalized \<and>
   finalizeVerse ex_verse ex_config = Inr ex_verse_finalized \<and>
   finalizeVerse ex_verse_finalized ex_config = Inr ex_verse_finalized"
  using finalizeVerse_idempotent[of ex_verse_finalized ex_config ex_verse_finalized]
    finalizeVerse_idempotent[of ex_verse ex_config ex_verse_finalized] ex_finalize
  by (simp add: verseIsFinalized_def ex_verse_finalized_def)

section \<open>Rounds needed\<close>

text \<open>
  Claim C6. With no \<open>comment_mod_loop_count\<close> on the segment, 10 configured for
  \<open>iterations_pass_comment\<close> and 3 rounds per segment, \<open>computeReflectionLoopsNeeded\<close>
  returns 5: the absent count is replaced by minus the default pass count, not by minus
  the configured one, so the configured rounds per segment are not what is returned.
\<close>

theorem computeReflectionLoopsNeeded_uncommented:
  "computeReflectionLoopsNeeded empty_verse
     (default_config\<lparr>iterations_pass_comment := Some 10, reflection_loops_per_verse := Some 3\<rparr>) = 5"
  by (simp add: computeReflectionLoopsNeeded_def empty_verse_def default_config_def
      ITERATIONS_PASS_COMMENT_DEFAULT_def)

section \<open>The grade of a finalized segment\<close>

lemma computeVerseGrade_flag:
  assumes "computeVerseGrade v c = Inr (g, v1)"
  shows "verseIsFinalized v1 = verseIsFinalized v"
proof (cases "walked v c")
  case False
  from computeVerseGrade_not_walked[OF False] assms show ?thesis by auto
next
  case True
  then obtain ls where ls: "reflection_loops v = Some ls" by (auto simp: walked_def)
  from computeVerseGrade_walked[OF True ls] assms show ?thesis
    by (auto simp: verseIsFinalized_def)
qed

lemma applyBest_rounds:
  assumes "applyBest v1 c ls bi g = Inr v2" and "ls \<noteq> []"
  shows "\<exists>ls1. reflection_loops v2 = Some ls1 \<and> ls1 \<noteq> []"
  using assms
  by (auto simp: applyBest_def err_bind_eq_Inr Let_def split: option.splits)

text \<open>
  The flag and the rounds go together: \<open>finalizeVerse\<close>, which alone sets the flag, leaves
  at least one round, and \<open>resetVerseTo\<close>, which alone empties the rounds, withdraws the
  flag.
\<close>

lemma finalizeVerse_rounds:
  assumes "finalizeVerse v c = Inr v2" and "\<not> verseIsFinalized v" and "verseIsFinalized v2"
  shows "\<exists>ls. reflection_loops v2 = Some ls \<and> ls \<noteq> []"
proof (cases "reflection_loops v = None \<or> verseNeedsFinalization v c = Inr False")
  case True
  have "finalizeVerse v c = Inr v"
  proof (cases "reflection_loops v")
    case None
    then show ?thesis by (simp add: finalizeVerse_def)
  next
    case (Some ls0)
    with True show ?thesis by (auto simp: finalizeVerse_def)
  qed
  with assms show ?thesis by simp
next
  case False
  then obtain ls0 where ls0: "reflection_loops v = Some ls0"
    and nn: "verseNeedsFinalization v c \<noteq> Inr False" by auto
  note nf = assms(2)
  from assms(1) ls0 nf nn have needs: "verseNeedsFinalization v c = Inr True"
    by (cases "verseNeedsFinalization v c") (auto simp: finalizeVerse_def)
  obtain g v1 where cv: "computeVerseGrade v c = Inr (g, v1)"
    using computeVerseGrade_total by blast
  from computeVerseGrade_flag[OF cv] nf have nf1: "\<not> verseIsFinalized v1" by simp
  show ?thesis
  proof (cases "reflection_loops v1")
    case None
    with assms(1) ls0 nf needs cv have "v2 = v1" by (simp add: finalizeVerse_def Let_def)
    with nf1 assms(3) show ?thesis by simp
  next
    case (Some ls)
    note e = finalizeVerse_unfold[OF ls0 nf needs cv Some]
    show ?thesis
    proof (cases "findBest None (slice_start (length ls) (case comment_mod_loop_count v1 of None \<Rightarrow> 0 | Some k \<Rightarrow> k))
                (drop (slice_start (length ls) (case comment_mod_loop_count v1 of None \<Rightarrow> 0 | Some k \<Rightarrow> k)) ls)")
      case None
      with e assms(1) have "v2 = v1" by simp
      with nf1 assms(3) show ?thesis by simp
    next
      case b: (Some b)
      then have "ls \<noteq> []" by auto
      from b e assms(1) have "applyBest v1 c ls (fst b) (snd b) = Inr v2" by (cases b) simp
      from applyBest_rounds[OF this \<open>ls \<noteq> []\<close>] show ?thesis .
    qed
  qed
qed

lemma resetVerseTo_unfinalizes:
  assumes "resetVerseTo v t = Inr v2"
  shows "\<not> verseIsFinalized v2 \<and> reflection_loops v2 = Some []"
  using assms by (auto simp: resetVerseTo_def err_bind_eq_Inr verseIsFinalized_def split: if_splits)

text \<open>
  Claim C2. For a segment on which finalization has run (it carries the flag, has a
  reference and at least one round), \<open>computeVerseGrade\<close> returns
  \<open>reflection_finalized_grade\<close> and changes nothing, whatever the rounds hold: any change
  to the contents of the rounds, and any number of rounds added, leaves the result as
  it is.
\<close>

theorem computeVerseGrade_finalized:
  assumes "verseIsFinalized v"
    and "lookUpKey (data v) (map KStr (reference_key c)) JNull True = Inr r"
    and "r \<noteq> JNull" and "r \<noteq> JUndefined"
    and "ls \<noteq> []"
  shows "computeVerseGrade (v\<lparr>reflection_loops := Some ls\<rparr>) c =
           Inr (reflection_finalized_grade v, v\<lparr>reflection_loops := Some ls\<rparr>)"
proof -
  have "lookUpKey (data (v\<lparr>reflection_loops := Some ls\<rparr>)) (map KStr (reference_key c)) JNull True = Inr r"
    using assms(2) by simp
  from computeVerseGrade_eq[OF this] assms show ?thesis
    by (simp add: verseIsFinalized_def)
qed

theorem computeVerseGrade_finalized_witness:
  "verseIsFinalized ex_verse_finalized \<and>
   lookUpKey (data ex_verse_finalized) (map KStr (reference_key ex_config)) JNull True = Inr (JStr ''GEN 1:1'') \<and>
   computeVerseGrade (ex_verse_finalized\<lparr>reflection_loops := Some [empty_loop, empty_loop]\<rparr>) ex_config =
     Inr (Some 50, ex_verse_finalized\<lparr>reflection_loops := Some [empty_loop, empty_loop]\<rparr>)"
  using computeVerseGrade_finalized[of ex_verse_finalized ex_config "JStr ''GEN 1:1''" "[empty_loop, empty_loop]"]
  by (simp add: verseIsFinalized_def ex_verse_finalized_def ex_config_def default_config_def empty_verse_def)

section \<open>What finalization does\<close>

lemma findBest_spec:
  "case findBest best i xs of
     None \<Rightarrow> best = None \<and> (\<forall>x \<in> set xs. average_grade x = None)
   | Some (bi, bg) \<Rightarrow>
       (\<forall>j < length xs. \<forall>a. average_grade (xs ! j) = Some a \<longrightarrow> a \<le> bg) \<and>
       (\<forall>b. best = Some b \<longrightarrow> snd b \<le> bg) \<and>
       (best = Some (bi, bg) \<or>
        (i \<le> bi \<and> bi < i + length xs \<and> average_grade (xs ! (bi - i)) = Some bg))"
proof (induction xs arbitrary: best i)
  case Nil
  then show ?case by (auto split: option.splits)
next
  case (Cons l ls)
  let ?b = "case average_grade l of
          None \<Rightarrow> best
        | Some a \<Rightarrow>
            (case best of
               None \<Rightarrow> Some (i, a)
             | Some (bi, bestGrade) \<Rightarrow> if bestGrade \<le> a then Some (i, a) else best)"
  have step: "findBest best i (l # ls) = findBest ?b (Suc i) ls" by simp
  note IH = Cons.IH[of ?b "Suc i"]
  show ?case
  proof (cases "findBest ?b (Suc i) ls")
    case None
    with IH have "?b = None" "\<forall>x \<in> set ls. average_grade x = None" by auto
    then have "best = None \<and> average_grade l = None"
      by (auto split: option.splits if_splits)
    with None step \<open>\<forall>x \<in> set ls. average_grade x = None\<close> show ?thesis by simp
  next
    case (Some p)
    obtain bi bg where p: "p = (bi, bg)" by (cases p)
    from IH Some p have a: "\<forall>j < length ls. \<forall>a. average_grade (ls ! j) = Some a \<longrightarrow> a \<le> bg"
      and b: "\<forall>b. ?b = Some b \<longrightarrow> snd b \<le> bg"
      and c: "?b = Some (bi, bg) \<or> (Suc i \<le> bi \<and> bi < Suc i + length ls \<and> average_grade (ls ! (bi - Suc i)) = Some bg)"
      by auto
    have l_le: "\<forall>a. average_grade l = Some a \<longrightarrow> a \<le> bg"
      using b by (auto split: option.splits if_splits)
    have best_le: "\<forall>b0. best = Some b0 \<longrightarrow> snd b0 \<le> bg"
      using b by (auto split: option.splits if_splits)
    have all: "\<forall>j < length (l # ls). \<forall>a. average_grade ((l # ls) ! j) = Some a \<longrightarrow> a \<le> bg"
      using a l_le by (auto simp: nth_Cons split: nat.splits)
    have pos: "best = Some (bi, bg) \<or>
        (i \<le> bi \<and> bi < i + length (l # ls) \<and> average_grade ((l # ls) ! (bi - i)) = Some bg)"
    proof -
      from c show ?thesis
      proof
        assume e: "?b = Some (bi, bg)"
        then show ?thesis by (auto split: option.splits if_splits)
      next
        assume e: "Suc i \<le> bi \<and> bi < Suc i + length ls \<and> average_grade (ls ! (bi - Suc i)) = Some bg"
        then have "bi - i = Suc (bi - Suc i)" by arith
        with e show ?thesis by auto
      qed
    qed
    from all best_le pos Some p step show ?thesis by simp
  qed
qed

lemma needs_facts:
  assumes "verseNeedsFinalization v c = Inr True" and "reflection_loops v = Some ls"
  shows "ls \<noteq> []"
    and "max 1 (computeReflectionLoopsNeeded v c) \<le> int (length ls)"
    and "\<exists>gs. grades (last ls) = Some gs \<and> grades_per_reflection_loop c \<le> int (length gs)"
proof -
  from assms have a: "\<not> int (length ls) < max 1 (computeReflectionLoopsNeeded v c)"
    by (auto simp: verseNeedsFinalization_def split: if_splits)
  then show "max 1 (computeReflectionLoopsNeeded v c) \<le> int (length ls)" by linarith
  from a show "ls \<noteq> []" by auto
  from assms a show "\<exists>gs. grades (last ls) = Some gs \<and> grades_per_reflection_loop c \<le> int (length gs)"
    by (auto simp: verseNeedsFinalization_def split: if_splits option.splits)
qed

lemma computeGrade_full:
  assumes "grades l = Some gs" and "1 \<le> grades_per_reflection_loop c"
    and "grades_per_reflection_loop c \<le> int (length gs)"
  shows "\<exists>a. computeGradeForReflectionLoop l c = (Some a, l\<lparr>average_grade := Some a\<rparr>)"
proof (cases "average_grade l")
  case (Some a)
  then have "l\<lparr>average_grade := Some a\<rparr> = l" by simp
  with cg_Some[OF Some, of c] show ?thesis by auto
next
  case None
  from assms have "gs \<noteq> []" by auto
  with cg_None[OF None, of c] assms show ?thesis by (auto simp: Let_def)
qed

lemma memoized_snoc:
  assumes "computeGradeForReflectionLoop l c = (Some a, l1)"
  shows "memoized c (xs @ [l]) = xs @ [l1]"
  using assms by (simp add: memoized_def)

lemma findBest_slice:
  assumes "first < length xs" and "average_grade (last xs) \<noteq> None"
  shows "\<exists>bi bg. findBest None first (drop first xs) = Some (bi, bg) \<and>
           first \<le> bi \<and> bi < length xs \<and> average_grade (xs ! bi) = Some bg \<and>
           (\<forall>j. first \<le> j \<and> j < length xs \<longrightarrow> (\<forall>a. average_grade (xs ! j) = Some a \<longrightarrow> a \<le> bg))"
proof -
  note sp = findBest_spec[where best = None and i = first and xs = "drop first xs"]
  have mem: "last xs \<in> set (drop first xs)"
    using assms(1) by (metis drop_eq_Nil2 last_drop last_in_set leD)
  show ?thesis
  proof (cases "findBest None first (drop first xs)")
    case None
    with sp mem assms(2) show ?thesis by auto
  next
    case (Some p)
    obtain bi bg where p: "p = (bi, bg)" by (cases p)
    from sp Some p have a: "\<forall>j < length (drop first xs). \<forall>a. average_grade (drop first xs ! j) = Some a \<longrightarrow> a \<le> bg"
      and b: "first \<le> bi" "bi < first + length (drop first xs)"
         "average_grade (drop first xs ! (bi - first)) = Some bg"
      by auto
    from b assms(1) have bi: "bi < length xs" by simp
    from b assms(1) have avg: "average_grade (xs ! bi) = Some bg" by simp
    have all: "\<forall>j. first \<le> j \<and> j < length xs \<longrightarrow> (\<forall>a. average_grade (xs ! j) = Some a \<longrightarrow> a \<le> bg)"
    proof (intro allI impI)
      fix j a assume j: "first \<le> j \<and> j < length xs" and av: "average_grade (xs ! j) = Some a"
      then have "j - first < length (drop first xs)" by auto
      moreover from j have "drop first xs ! (j - first) = xs ! j" by simp
      ultimately show "a \<le> bg" using a av by metis
    qed
    from Some p b(1) bi avg all show ?thesis by blast
  qed
qed

lemma backfillLast_spec:
  "\<exists>lastLoop. backfillLast d c l = Inr lastLoop \<and>
     (truthy (prop_value (graded_verse l)) \<longrightarrow> lastLoop = l) \<and>
     (\<not> truthy (prop_value (graded_verse l)) \<longrightarrow>
        lookUpKey d (map KStr (translation_key c)) JNull True = Inr (prop_value (graded_verse lastLoop)) \<and>
        graded_verse lastLoop \<noteq> None \<and>
        (\<forall>ck. translation_comment_key c = Some ck \<longrightarrow>
           lookUpKey d (map KStr ck) JNull True = Inr (prop_value (graded_verse_comment lastLoop)) \<and>
           graded_verse_comment lastLoop \<noteq> None) \<and>
        (translation_comment_key c = None \<longrightarrow> graded_verse_comment lastLoop = graded_verse_comment l) \<and>
        grades lastLoop = grades l \<and> average_grade lastLoop = average_grade l)"
proof -
  obtain t where t: "lookUpKey d (map KStr (translation_key c)) JNull True = Inr t"
    using lookUpKey_Inr by blast
  show ?thesis
  proof (cases "translation_comment_key c")
    case None
    with t show ?thesis by (simp add: backfillLast_def prop_value_def)
  next
    case (Some ck)
    obtain tc where tc: "lookUpKey d (map KStr ck) JNull True = Inr tc"
      using lookUpKey_Inr by blast
    with t Some show ?thesis by (simp add: backfillLast_def prop_value_def)
  qed
qed

lemma js_set_eq_Inr:
  "js_set d key v = Inr d2 \<longleftrightarrow>
     (\<exists>m. d = JObj m \<and> (key = ''__proto__'' \<longrightarrow> map_of m key \<noteq> None) \<and>
          d2 = JObj (AList.update key v m))"
  by (cases d) auto

lemma setKey_builtin: "setKey (JBuiltin f) ks v = Inl Unmodelled"
proof (cases ks)
  case Nil
  then show ?thesis by simp
next
  case (Cons k rest)
  then show ?thesis by (cases rest) simp_all
qed

lemma setKey_null: "setKey JNull ks v = Inl TypeError"
proof (cases ks)
  case Nil
  then show ?thesis by simp
next
  case (Cons k rest)
  then show ?thesis by (cases rest) simp_all
qed

lemma setKey_prototype: "\<exists>e. setKey JObjectPrototype ks v = Inl e"
proof (cases ks)
  case Nil
  then show ?thesis by simp
next
  case (Cons k rest)
  show ?thesis
  proof (cases rest)
    case Nil
    with Cons show ?thesis by simp
  next
    case (Cons k2 rest2)
    have "\<exists>e. setKey JObjectPrototype (k # k2 # rest2) v = Inl e"
    proof (cases "prototype_member JNull k")
      case None
      then show ?thesis by simp
    next
      case (Some p)
      then have "p = JNull \<or> p = JBuiltin k"
        by (auto simp: prototype_member_def split: if_splits)
      with Some show ?thesis
        by (auto simp: setKey_builtin setKey_null)
    qed
    with \<open>ks = k # rest\<close> Cons show ?thesis by simp
  qed
qed

lemma setKey_Inr_obj:
  assumes "setKey d ks v = Inr d2"
  shows "\<exists>m. d = JObj m"
proof (cases d)
  case (JObj m)
  then show ?thesis by simp
next
  case JObjectPrototype
  with assms setKey_prototype[of ks v] show ?thesis by auto
next
  case (JBuiltin f)
  with assms show ?thesis by (simp add: setKey_builtin)
next
  case JNull
  with assms show ?thesis by (simp add: setKey_null)
next
  case JUndefined
  with assms show ?thesis by (cases ks; cases "tl ks") auto
next
  case (JBool b)
  with assms show ?thesis by (cases ks; cases "tl ks") auto
next
  case (JNum n)
  with assms show ?thesis by (cases ks; cases "tl ks") auto
next
  case (JStr s)
  with assms show ?thesis by (cases ks; cases "tl ks") auto
next
  case (JArr xs)
  with assms show ?thesis by (cases ks; cases "tl ks") auto
qed

lemma setKey_nonobj:
  assumes "setKey d (key # k2 # ks) v = Inr d2"
  shows "\<exists>m. d = JObj m"
  using assms by (rule setKey_Inr_obj)

lemma setKey_obj:
  assumes "setKey (JObj m) (key # k2 # ks) v = Inr d2"
  shows "\<exists>child1. setKey (case map_of m key of None \<Rightarrow> JObj [] | Some ch \<Rightarrow> ch) (k2 # ks) v = Inr child1 \<and>
           d2 = JObj (AList.update key child1 m)"
proof (cases "map_of m key")
  case (Some ch)
  with assms show ?thesis by (auto simp: err_bind_eq_Inr)
next
  case None
  show ?thesis
  proof (cases "prototype_member JObjectPrototype key")
    case inh: None
    then have "key \<noteq> ''__proto__''" by (auto simp: prototype_member_def)
    with assms None inh show ?thesis by (auto simp: err_bind_eq_Inr update_conv')
  next
    case (Some p)
    with assms None obtain child1 where "setKey p (k2 # ks) v = Inr child1"
      by (auto simp: err_bind_eq_Inr)
    from setKey_Inr_obj[OF this] obtain mp where "p = JObj mp" by blast
    with Some show ?thesis by (auto simp: prototype_member_def split: if_splits)
  qed
qed

lemma lookUpKey_obj:
  "lookUpKey (JObj m) (KStr key # ks) dflt niv =
     (case js_property (JObj m) key of None \<Rightarrow> Inr dflt | Some ch \<Rightarrow> lookUpKey ch ks dflt niv)"
  by (cases "js_property (JObj m) key") (simp_all del: js_property.simps)

lemma setKey_lookUpKey:
  "setKey d ks x = Inr d2 \<Longrightarrow> ks \<noteq> [] \<Longrightarrow> lookUpKey d2 (map KStr ks) dflt True = Inr x"
proof (induction ks arbitrary: d d2)
  case Nil
  then show ?case by simp
next
  case (Cons key rest)
  show ?case
  proof (cases rest)
    case Nil
    with Cons.prems obtain m where "d2 = JObj (AList.update key x m)"
      by (auto simp: js_set_eq_Inr)
    with Nil show ?thesis by (simp add: lookUpKey_obj update_conv')
  next
    case (Cons k2 ks)
    with Cons.prems obtain m where d: "d = JObj m" using setKey_nonobj by blast
    let ?child = "case map_of m key of None \<Rightarrow> JObj [] | Some ch \<Rightarrow> ch"
    from Cons.prems have e: "setKey (JObj m) (key # k2 # ks) x = Inr d2" by (simp only: d Cons)
    from setKey_obj[OF e] Cons obtain child1 where c1: "setKey ?child rest x = Inr child1"
      and d2: "d2 = JObj (AList.update key child1 m)"
      by auto
    from Cons.IH[OF c1] Cons have "lookUpKey child1 (map KStr rest) dflt True = Inr x" by simp
    with d2 show ?thesis by (simp add: lookUpKey_obj update_conv')
  qed
qed

lemma setKey_head:
  assumes "setKey d (k # ks) x = Inr d2"
  shows "\<exists>m y. d = JObj m \<and> d2 = JObj (AList.update k y m)"
proof (cases ks)
  case Nil
  with assms show ?thesis by (auto simp: js_set_eq_Inr)
next
  case (Cons k2 ks2)
  from setKey_nonobj[OF assms[unfolded Cons]] obtain m where m: "d = JObj m" by blast
  from setKey_obj[OF assms[unfolded Cons m]] show ?thesis using m by auto
qed

lemma setKey_frame:
  assumes "setKey d (k # ks) x = Inr d2" and "key \<noteq> k"
  shows "lookUpKey d2 (KStr key # rest) dflt niv = lookUpKey d (KStr key # rest) dflt niv"
  using setKey_head[OF assms(1)] assms(2) by (auto simp: lookUpKey_obj update_conv')

lemma setKey_then_setKey:
  assumes s1: "setKey d tk x = Inr f1"
    and s2: "(case tck of None \<Rightarrow> Inr f1 | Some ck \<Rightarrow> setKey f1 ck y) = Inr f2"
  shows "(\<forall>ck. tck = Some ck \<longrightarrow> ck \<noteq> [] \<longrightarrow> lookUpKey f2 (map KStr ck) dflt True = Inr y) \<and>
         (tk \<noteq> [] \<longrightarrow> (\<forall>ck. tck = Some ck \<longrightarrow> ck \<noteq> [] \<and> hd ck \<noteq> hd tk) \<longrightarrow>
            lookUpKey f2 (map KStr tk) dflt True = Inr x)"
proof (cases tck)
  case None
  with s2 have "f2 = f1" by simp
  with None setKey_lookUpKey[OF s1] show ?thesis by simp
next
  case (Some ck)
  with s2 have s3: "setKey f1 ck y = Inr f2" by simp
  have a: "ck \<noteq> [] \<longrightarrow> lookUpKey f2 (map KStr ck) dflt True = Inr y"
    using setKey_lookUpKey[OF s3] by simp
  have b: "lookUpKey f2 (map KStr tk) dflt True = Inr x"
    if "tk \<noteq> []" and "ck \<noteq> []" and "hd ck \<noteq> hd tk"
  proof -
    from that obtain t ts k ks where tk: "tk = t # ts" and ck: "ck = k # ks" and ne: "t \<noteq> k"
      by (cases tk; cases ck) auto
    from setKey_frame[OF s3[unfolded ck] ne, of "map KStr ts" dflt True]
    have "lookUpKey f2 (map KStr tk) dflt True = lookUpKey f1 (map KStr tk) dflt True"
      by (simp add: tk)
    with setKey_lookUpKey[OF s1 that(1), of dflt] show ?thesis by simp
  qed
  from a b Some show ?thesis by simp
qed

text \<open>
  Claim C1. Finalizing a segment that is not yet finalized, has a reference, has the
  rounds it needs and whose newest round is fully graded (with at least one grade per
  round configured, a pass count of at least one and a non-negative
  \<open>comment_mod_loop_count\<close> \<open>k\<close>): the averages are memoised (\<open>lsm\<close>), the rounds from index
  \<open>k\<close> on are scanned and a round \<open>bi\<close> among them with the highest memoised average \<open>bg\<close>
  wins; the last round's \<open>graded_verse\<close> (and comment, when a comment key is configured)
  is backfilled from the current translation if it was never recorded; the winner's
  \<open>graded_verse\<close> and \<open>graded_verse_comment\<close> are written to the translation and comment
  key paths, \<open>reflection_is_finalized\<close> becomes true and \<open>reflection_finalized_grade\<close>
  the winner's average. The call fails only where writing a key path raises; when it
  returns, the comment key path reads the winner's comment and, the two key paths
  starting with different keys, the translation key path reads the winner's text.
\<close>

theorem finalizeVerse_effect:
  assumes loops: "reflection_loops v = Some ls"
    and nf: "\<not> verseIsFinalized v"
    and needs: "verseNeedsFinalization v c = Inr True"
    and ref: "lookUpKey (data v) (map KStr (reference_key c)) JNull True = Inr r"
             "r \<noteq> JNull" "r \<noteq> JUndefined"
    and gprl: "1 \<le> grades_per_reflection_loop c"
    and ipc: "1 \<le> (case iterations_pass_comment c of None \<Rightarrow> ITERATIONS_PASS_COMMENT_DEFAULT | Some n \<Rightarrow> n)"
    and k: "k = (case comment_mod_loop_count v of None \<Rightarrow> 0 | Some n \<Rightarrow> n)" "0 \<le> k"
  shows "\<exists>g lsm bi bg lastLoop ls1.
     computeVerseGrade v c = Inr (g, v\<lparr>reflection_loops := Some lsm\<rparr>) \<and>
     length lsm = length ls \<and>
     nat k \<le> bi \<and> bi < length ls \<and> average_grade (lsm ! bi) = Some bg \<and>
     (\<forall>j. nat k \<le> j \<and> j < length ls \<longrightarrow> (\<forall>a. average_grade (lsm ! j) = Some a \<longrightarrow> a \<le> bg)) \<and>
     backfillLast (data v) c (last lsm) = Inr lastLoop \<and>
     (truthy (prop_value (graded_verse (last ls))) \<longrightarrow> lastLoop = last lsm) \<and>
     (\<not> truthy (prop_value (graded_verse (last ls))) \<longrightarrow>
        lookUpKey (data v) (map KStr (translation_key c)) JNull True =
          Inr (prop_value (graded_verse lastLoop)) \<and>
        (\<forall>ck. translation_comment_key c = Some ck \<longrightarrow>
           lookUpKey (data v) (map KStr ck) JNull True =
             Inr (prop_value (graded_verse_comment lastLoop)))) \<and>
     ls1 = lsm[length ls - 1 := lastLoop] \<and>
     finalizeVerse v c =
       err_bind (setKey (data v) (translation_key c) (prop_value (graded_verse (ls1 ! bi)))) (\<lambda>f1.
         err_bind (case translation_comment_key c of
                     None \<Rightarrow> Inr f1
                   | Some ck \<Rightarrow> setKey f1 ck (prop_value (graded_verse_comment (ls1 ! bi)))) (\<lambda>f2.
           Inr (v\<lparr>data := f2,
                  reflection_loops := Some ls1,
                  reflection_is_finalized := Some True,
                  reflection_finalized_grade := Some bg\<rparr>))) \<and>
     (\<forall>v2. finalizeVerse v c = Inr v2 \<longrightarrow>
        reflection_loops v2 = Some ls1 \<and>
        reflection_is_finalized v2 = Some True \<and>
        reflection_finalized_grade v2 = Some bg \<and>
        (\<forall>ck. translation_comment_key c = Some ck \<longrightarrow> ck \<noteq> [] \<longrightarrow>
           lookUpKey (data v2) (map KStr ck) JNull True =
             Inr (prop_value (graded_verse_comment (ls1 ! bi)))) \<and>
        (translation_key c \<noteq> [] \<longrightarrow>
         (\<forall>ck. translation_comment_key c = Some ck \<longrightarrow> ck \<noteq> [] \<and> hd ck \<noteq> hd (translation_key c)) \<longrightarrow>
           lookUpKey (data v2) (map KStr (translation_key c)) JNull True =
             Inr (prop_value (graded_verse (ls1 ! bi)))))"
proof -
  note nfacts = needs_facts[OF needs loops]
  from nfacts(1) have ne: "ls \<noteq> []" .
  from nfacts(3) obtain gs where gs: "grades (last ls) = Some gs"
    "grades_per_reflection_loop c \<le> int (length gs)" by blast
  have w: "walked v c" using ref loops ne nf by (auto simp: walked_def)
  let ?lsm = "memoized c ls"
  let ?v1 = "v\<lparr>reflection_loops := Some ?lsm\<rparr>"
  have cv: "computeVerseGrade v c = Inr (fst (gradeWalk c (rev ls)), ?v1)"
    by (rule computeVerseGrade_walked[OF w loops])
  \<comment> \<open>the newest round carries its average after the walk\<close>
  obtain a where a: "computeGradeForReflectionLoop (last ls) c = (Some a, (last ls)\<lparr>average_grade := Some a\<rparr>)"
    using computeGrade_full[OF gs(1) gprl gs(2)] by blast
  have "memoized c (butlast ls @ [last ls]) = butlast ls @ [(last ls)\<lparr>average_grade := Some a\<rparr>]"
    by (rule memoized_snoc[OF a])
  with ne have lsm_eq: "?lsm = butlast ls @ [(last ls)\<lparr>average_grade := Some a\<rparr>]" by simp
  then have last_lsm: "last ?lsm = (last ls)\<lparr>average_grade := Some a\<rparr>" by simp
  then have last_avg: "average_grade (last ?lsm) \<noteq> None" by simp
  \<comment> \<open>the first index considered\<close>
  have klt: "k < int (length ls)"
  proof (cases "comment_mod_loop_count v")
    case None
    with k ne show ?thesis by simp
  next
    case (Some n)
    with nfacts(2) ipc have "n + 1 \<le> int (length ls)"
      by (auto simp: computeReflectionLoopsNeeded_def split: option.splits)
    with k Some show ?thesis by simp
  qed
  with k have first: "slice_start (length ?lsm) (case comment_mod_loop_count ?v1 of None \<Rightarrow> 0 | Some n \<Rightarrow> n) = nat k"
    by (auto simp: slice_start_def)
  from klt k have lt: "nat k < length ?lsm" by simp
  obtain bi bg where fb: "findBest None (nat k) (drop (nat k) ?lsm) = Some (bi, bg)"
    and bi: "nat k \<le> bi" "bi < length ?lsm" "average_grade (?lsm ! bi) = Some bg"
    and best: "\<forall>j. nat k \<le> j \<and> j < length ?lsm \<longrightarrow> (\<forall>a. average_grade (?lsm ! j) = Some a \<longrightarrow> a \<le> bg)"
    using findBest_slice[OF lt last_avg] by blast
  have fin: "finalizeVerse v c = applyBest ?v1 c ?lsm bi bg"
    using finalizeVerse_unfold[OF loops nf needs cv, of ?lsm] first fb by simp
  obtain lastLoop where bl: "backfillLast (data v) c (last ?lsm) = Inr lastLoop"
    and bl1: "truthy (prop_value (graded_verse (last ?lsm))) \<longrightarrow> lastLoop = last ?lsm"
    and bl2: "\<not> truthy (prop_value (graded_verse (last ?lsm))) \<longrightarrow>
        lookUpKey (data v) (map KStr (translation_key c)) JNull True = Inr (prop_value (graded_verse lastLoop)) \<and>
        (\<forall>ck. translation_comment_key c = Some ck \<longrightarrow>
           lookUpKey (data v) (map KStr ck) JNull True = Inr (prop_value (graded_verse_comment lastLoop)))"
    using backfillLast_spec[of "data v" c "last ?lsm"] by blast
  have gv: "graded_verse (last ?lsm) = graded_verse (last ls)" by (simp add: last_lsm)
  define ls1 where "ls1 = ?lsm[length ls - 1 := lastLoop]"
  have ab: "applyBest ?v1 c ?lsm bi bg =
       err_bind (setKey (data v) (translation_key c) (prop_value (graded_verse (ls1 ! bi)))) (\<lambda>f1.
         err_bind (case translation_comment_key c of
                     None \<Rightarrow> Inr f1
                   | Some ck \<Rightarrow> setKey f1 ck (prop_value (graded_verse_comment (ls1 ! bi)))) (\<lambda>f2.
           Inr (v\<lparr>data := f2,
                  reflection_loops := Some ls1,
                  reflection_is_finalized := Some True,
                  reflection_finalized_grade := Some bg\<rparr>)))"
    using bl by (cases "translation_comment_key c") (simp_all add: applyBest_def Let_def ls1_def)
  have c1: "computeVerseGrade v c = Inr (fst (gradeWalk c (rev ls)), v\<lparr>reflection_loops := Some ?lsm\<rparr>)"
    by (rule cv)
  have c2: "length ?lsm = length ls" by simp
  have c3: "nat k \<le> bi" by (rule bi(1))
  have c4: "bi < length ls" using bi(2) by simp
  have c5: "average_grade (?lsm ! bi) = Some bg" by (rule bi(3))
  have c6: "\<forall>j. nat k \<le> j \<and> j < length ls \<longrightarrow> (\<forall>a. average_grade (?lsm ! j) = Some a \<longrightarrow> a \<le> bg)"
    using best by simp
  have c7: "truthy (prop_value (graded_verse (last ls))) \<longrightarrow> lastLoop = last ?lsm"
    using bl1 gv by simp
  have c8: "\<not> truthy (prop_value (graded_verse (last ls))) \<longrightarrow>
        lookUpKey (data v) (map KStr (translation_key c)) JNull True =
          Inr (prop_value (graded_verse lastLoop)) \<and>
        (\<forall>ck. translation_comment_key c = Some ck \<longrightarrow>
           lookUpKey (data v) (map KStr ck) JNull True =
             Inr (prop_value (graded_verse_comment lastLoop)))"
    using bl2 gv by simp
  have c9: "finalizeVerse v c =
       err_bind (setKey (data v) (translation_key c) (prop_value (graded_verse (ls1 ! bi)))) (\<lambda>f1.
         err_bind (case translation_comment_key c of
                     None \<Rightarrow> Inr f1
                   | Some ck \<Rightarrow> setKey f1 ck (prop_value (graded_verse_comment (ls1 ! bi)))) (\<lambda>f2.
           Inr (v\<lparr>data := f2,
                  reflection_loops := Some ls1,
                  reflection_is_finalized := Some True,
                  reflection_finalized_grade := Some bg\<rparr>)))"
    using fin ab by simp
  have c10: "\<forall>v2. finalizeVerse v c = Inr v2 \<longrightarrow>
        reflection_loops v2 = Some ls1 \<and>
        reflection_is_finalized v2 = Some True \<and>
        reflection_finalized_grade v2 = Some bg \<and>
        (\<forall>ck. translation_comment_key c = Some ck \<longrightarrow> ck \<noteq> [] \<longrightarrow>
           lookUpKey (data v2) (map KStr ck) JNull True =
             Inr (prop_value (graded_verse_comment (ls1 ! bi)))) \<and>
        (translation_key c \<noteq> [] \<longrightarrow>
         (\<forall>ck. translation_comment_key c = Some ck \<longrightarrow> ck \<noteq> [] \<and> hd ck \<noteq> hd (translation_key c)) \<longrightarrow>
           lookUpKey (data v2) (map KStr (translation_key c)) JNull True =
             Inr (prop_value (graded_verse (ls1 ! bi))))"
  proof (intro allI impI)
    fix v2
    assume fv: "finalizeVerse v c = Inr v2"
    from fv[unfolded c9 err_bind_eq_Inr] obtain f1 f2
      where s1: "setKey (data v) (translation_key c) (prop_value (graded_verse (ls1 ! bi))) = Inr f1"
        and s2: "(case translation_comment_key c of
                     None \<Rightarrow> Inr f1
                   | Some ck \<Rightarrow> setKey f1 ck (prop_value (graded_verse_comment (ls1 ! bi)))) = Inr f2"
        and v2: "v2 = v\<lparr>data := f2,
                  reflection_loops := Some ls1,
                  reflection_is_finalized := Some True,
                  reflection_finalized_grade := Some bg\<rparr>"
      by auto
    from setKey_then_setKey[OF s1 s2, of JNull] v2
    show "reflection_loops v2 = Some ls1 \<and>
        reflection_is_finalized v2 = Some True \<and>
        reflection_finalized_grade v2 = Some bg \<and>
        (\<forall>ck. translation_comment_key c = Some ck \<longrightarrow> ck \<noteq> [] \<longrightarrow>
           lookUpKey (data v2) (map KStr ck) JNull True =
             Inr (prop_value (graded_verse_comment (ls1 ! bi)))) \<and>
        (translation_key c \<noteq> [] \<longrightarrow>
         (\<forall>ck. translation_comment_key c = Some ck \<longrightarrow> ck \<noteq> [] \<and> hd ck \<noteq> hd (translation_key c)) \<longrightarrow>
           lookUpKey (data v2) (map KStr (translation_key c)) JNull True =
             Inr (prop_value (graded_verse (ls1 ! bi))))"
      by simp
  qed
  from c1 c2 c3 c4 c5 c6 bl c7 c8 ls1_def c9 c10 show ?thesis by blast
qed

lemma ex_finalize2: "finalizeVerse ex_verse2 ex_config = Inr ex_verse2_finalized"
  by code_simp

theorem finalizeVerse_effect_witness:
  "reflection_loops ex_verse2 = Some ex_loops2 \<and>
   \<not> verseIsFinalized ex_verse2 \<and>
   verseNeedsFinalization ex_verse2 ex_config = Inr True \<and>
   lookUpKey (data ex_verse2) (map KStr (reference_key ex_config)) JNull True = Inr (JStr ''GEN 1:2'') \<and>
   1 \<le> grades_per_reflection_loop ex_config \<and>
   finalizeVerse ex_verse2 ex_config = Inr ex_verse2_finalized \<and>
   (\<exists>bi bg (lsm :: reflectionLoop list). bi < length ex_loops2 \<and> average_grade (lsm ! bi) = Some bg \<and>
      (\<forall>j. nat 0 \<le> j \<and> j < length ex_loops2 \<longrightarrow> (\<forall>a. average_grade (lsm ! j) = Some a \<longrightarrow> a \<le> bg)))"
proof -
  have h1: "reflection_loops ex_verse2 = Some ex_loops2"
    by (simp add: ex_verse2_def empty_verse_def)
  have h2: "\<not> verseIsFinalized ex_verse2"
    by (simp add: verseIsFinalized_def ex_verse2_def empty_verse_def)
  have h3: "verseNeedsFinalization ex_verse2 ex_config = Inr True"
    by code_simp
  have h4: "lookUpKey (data ex_verse2) (map KStr (reference_key ex_config)) JNull True = Inr (JStr ''GEN 1:2'')"
    by (simp add: ex_verse2_def empty_verse_def ex_config_def default_config_def)
  have h5: "1 \<le> grades_per_reflection_loop ex_config"
    by (simp add: ex_config_def default_config_def)
  have h6: "1 \<le> (case iterations_pass_comment ex_config of None \<Rightarrow> ITERATIONS_PASS_COMMENT_DEFAULT | Some n \<Rightarrow> n)"
    by (simp add: ex_config_def default_config_def ITERATIONS_PASS_COMMENT_DEFAULT_def)
  have h7: "(0::int) = (case comment_mod_loop_count ex_verse2 of None \<Rightarrow> 0 | Some n \<Rightarrow> n)"
    by (simp add: ex_verse2_def empty_verse_def)
  have r1: "JStr ''GEN 1:2'' \<noteq> JNull" and r2: "JStr ''GEN 1:2'' \<noteq> JUndefined" by simp_all
  have h8: "(0::int) \<le> 0" by simp
  from finalizeVerse_effect[OF h1 h2 h3 h4 r1 r2 h5 h6 h7 h8]
  have "\<exists>bi bg (lsm :: reflectionLoop list). bi < length ex_loops2 \<and> average_grade (lsm ! bi) = Some bg \<and>
      (\<forall>j. nat 0 \<le> j \<and> j < length ex_loops2 \<longrightarrow> (\<forall>a. average_grade (lsm ! j) = Some a \<longrightarrow> a \<le> bg))"
  proof (elim exE conjE)
    fix lsm :: "reflectionLoop list" and bi :: nat and bg :: rat
    assume a: "bi < length ex_loops2" and b: "average_grade (lsm ! bi) = Some bg"
      and c: "\<forall>j. nat 0 \<le> j \<and> j < length ex_loops2 \<longrightarrow> (\<forall>a. average_grade (lsm ! j) = Some a \<longrightarrow> a \<le> bg)"
    show ?thesis
      by (rule exI[of _ bi], rule exI[of _ bg], rule exI[of _ lsm], intro conjI) (rule a b c)+
  qed
  with h1 h2 h3 h4 h5 ex_finalize2 show ?thesis by (intro conjI)
qed

section \<open>Halted segments\<close>

lemma sweepVerse_line: "sweepVerse v c n = Some a \<Longrightarrow> action_line a = Some n"
  by (auto simp: sweepVerse_def Let_def split: if_splits)

lemma sweepFrom_found:
  "sweepFrom c ovr n vs = Inr a \<Longrightarrow> action_line a = Some i \<Longrightarrow>
     n \<le> i \<and> i < n + length vs \<and> ai_halted (vs ! (i - n)) \<noteq> Some True \<and>
     sweepVerse (vs ! (i - n)) c i = Some a"
proof (induction vs arbitrary: n)
  case Nil
  then show ?case by simp
next
  case (Cons v rest)
  have rec: "sweepFrom c ovr (Suc n) rest = Inr a \<Longrightarrow> ?case"
  proof -
    assume "sweepFrom c ovr (Suc n) rest = Inr a"
    from Cons.IH[OF this Cons.prems(2)]
    have a: "Suc n \<le> i" "i < Suc n + length rest" "ai_halted (rest ! (i - Suc n)) \<noteq> Some True"
      "sweepVerse (rest ! (i - Suc n)) c i = Some a" by auto
    from a(1) have "i - n = Suc (i - Suc n)" by arith
    with a show ?case by simp
  qed
  obtain vref where vref: "lookUpKey (data v) (map KStr (reference_key c)) JNull True = Inr vref"
    using lookUpKey_Inr by blast
  show ?case
  proof (cases "sweepFrom c ovr n (v # rest) = sweepFrom c ovr (Suc n) rest")
    case True
    with Cons.prems(1) rec show ?thesis by simp
  next
    case False
    with Cons.prems vref have h: "ai_halted v \<noteq> Some True" and sv: "sweepVerse v c n = Some a"
      by (auto split: if_splits option.splits)
    from sweepVerse_line[OF sv] Cons.prems(2) have "i = n" by simp
    with h sv show ?thesis by simp
  qed
qed

lemma lowestFrom_found:
  "lowestFrom c ovr n lowest vs = Inr (r, vs2) \<Longrightarrow> r = Some (g, i) \<Longrightarrow>
     lowest = Some (g, i) \<or>
     (n \<le> i \<and> i < n + length vs \<and> ai_halted (vs ! (i - n)) \<noteq> Some True \<and>
      grade_only (vs ! (i - n)) \<noteq> Some True)"
proof (induction vs arbitrary: n lowest r vs2)
  case Nil
  then show ?case by simp
next
  case (Cons v rest)
  have rec: "\<And>low r2 vs3. lowestFrom c ovr (Suc n) low rest = Inr (r2, vs3) \<Longrightarrow> r2 = Some (g, i) \<Longrightarrow>
      low = Some (g, i) \<or>
      (n \<le> i \<and> i < n + length (v # rest) \<and> ai_halted ((v # rest) ! (i - n)) \<noteq> Some True \<and>
       grade_only ((v # rest) ! (i - n)) \<noteq> Some True)"
  proof -
    fix low r2 vs3
    assume a: "lowestFrom c ovr (Suc n) low rest = Inr (r2, vs3)" and b: "r2 = Some (g, i)"
    from Cons.IH[OF a b] show "low = Some (g, i) \<or>
      (n \<le> i \<and> i < n + length (v # rest) \<and> ai_halted ((v # rest) ! (i - n)) \<noteq> Some True \<and>
       grade_only ((v # rest) ! (i - n)) \<noteq> Some True)"
    proof
      assume "low = Some (g, i)" then show ?thesis by simp
    next
      assume c: "Suc n \<le> i \<and> i < Suc n + length rest \<and> ai_halted (rest ! (i - Suc n)) \<noteq> Some True \<and>
         grade_only (rest ! (i - Suc n)) \<noteq> Some True"
      then have "i - n = Suc (i - Suc n)" by arith
      with c show ?thesis by simp
    qed
  qed
  obtain vref where vref: "lookUpKey (data v) (map KStr (reference_key c)) JNull True = Inr vref"
    using lookUpKey_Inr by blast
  obtain vg v1 where cv: "computeVerseGrade v c = Inr (vg, v1)"
    using computeVerseGrade_total by blast
  let ?low = "case vg of
                None \<Rightarrow> lowest
              | Some g \<Rightarrow>
                  (case lowest of
                     None \<Rightarrow> Some (g, n)
                   | Some (lowestGradeFound, li) \<Rightarrow>
                       if lowestGradeFound > g then Some (g, n) else lowest)"
  let ?before = "case start_line c of None \<Rightarrow> False | Some s \<Rightarrow> int n < s - 1"
  let ?after = "case end_line c of None \<Rightarrow> False | Some e \<Rightarrow> int n > e - 1"
  let ?elig = "vref \<noteq> JNull \<and> vref \<noteq> JUndefined \<and> \<not> ovr vref \<and> \<not> verseIsFinalized v"
  have stop_if: "\<not> ?before \<Longrightarrow> ?after \<Longrightarrow>
      lowestFrom c ovr n lowest (v # rest) = Inr (lowest, v # rest)"
    by simp
  have skip_if: "?before \<or> (\<not> ?after \<and> (ai_halted v = Some True \<or> grade_only v = Some True \<or> \<not> ?elig)) \<Longrightarrow>
      lowestFrom c ovr n lowest (v # rest) =
               err_bind (lowestFrom c ovr (Suc n) lowest rest) (\<lambda>(r, vs). Inr (r, v # vs))"
    using vref by auto
  have take_if: "\<not> ?before \<Longrightarrow> \<not> ?after \<Longrightarrow> ai_halted v \<noteq> Some True \<Longrightarrow> grade_only v \<noteq> Some True \<Longrightarrow> ?elig \<Longrightarrow>
      lowestFrom c ovr n lowest (v # rest) =
               err_bind (lowestFrom c ovr (Suc n) ?low rest) (\<lambda>(r, vs). Inr (r, v1 # vs))"
    using vref cv by simp
  consider
      (stop) "lowestFrom c ovr n lowest (v # rest) = Inr (lowest, v # rest)"
    | (skip) "lowestFrom c ovr n lowest (v # rest) =
               err_bind (lowestFrom c ovr (Suc n) lowest rest) (\<lambda>(r, vs). Inr (r, v # vs))"
    | (take) "ai_halted v \<noteq> Some True" "grade_only v \<noteq> Some True"
             "lowestFrom c ovr n lowest (v # rest) =
               err_bind (lowestFrom c ovr (Suc n) ?low rest) (\<lambda>(r, vs). Inr (r, v1 # vs))"
    using stop_if skip_if take_if by blast
  then show ?case
  proof cases
    case stop
    with Cons.prems show ?thesis by simp
  next
    case skip
    from Cons.prems(1) have "err_bind (lowestFrom c ovr (Suc n) lowest rest) (\<lambda>(r, vs). Inr (r, v # vs)) = Inr (r, vs2)"
      by (simp only: skip)
    then obtain vs3 where "lowestFrom c ovr (Suc n) lowest rest = Inr (r, vs3)"
      by (auto simp: err_bind_eq_Inr)
    from rec[OF this Cons.prems(2)] show ?thesis .
  next
    case take
    from Cons.prems(1) have "err_bind (lowestFrom c ovr (Suc n) ?low rest) (\<lambda>(r, vs). Inr (r, v1 # vs)) = Inr (r, vs2)"
      by (simp only: take(3))
    then obtain vs3 where "lowestFrom c ovr (Suc n) ?low rest = Inr (r, vs3)"
      by (auto simp: err_bind_eq_Inr)
    from rec[OF this Cons.prems(2)]
    have "?low = Some (g, i) \<or>
      (n \<le> i \<and> i < n + length (v # rest) \<and> ai_halted ((v # rest) ! (i - n)) \<noteq> Some True \<and>
       grade_only ((v # rest) ! (i - n)) \<noteq> Some True)" .
    then show ?thesis
    proof
      assume e: "?low = Some (g, i)"
      show ?thesis
      proof (cases "lowest = Some (g, i)")
        case True then show ?thesis by simp
      next
        case False
        with e have "i = n" by (auto split: option.splits if_splits)
        with take show ?thesis by simp
      qed
    next
      assume "n \<le> i \<and> i < n + length (v # rest) \<and> ai_halted ((v # rest) ! (i - n)) \<noteq> Some True \<and>
       grade_only ((v # rest) ! (i - n)) \<noteq> Some True"
      then show ?thesis by simp
    qed
  qed
qed

text \<open>
  Claim C4, as amended. A segment flagged \<open>ai_halted\<close> is never the one the sweep
  grades, under any configuration; and it is never the one selected for reflection when
  no \<open>debug_force_vref\<close> is configured.
\<close>

theorem halted_never_selected:
  "(sweep c ovr vs = Inr (Grade i k) \<longrightarrow>
      i < length vs \<and> ai_halted (vs ! i) \<noteq> Some True) \<and>
   (debug_force_vref c = None \<longrightarrow> selectVerse c ovr vs = Inr (Selected j, vs2) \<longrightarrow>
      j < length vs \<and> ai_halted (vs ! j) \<noteq> Some True)"
proof (rule conjI)
  show "sweep c ovr vs = Inr (Grade i k) \<longrightarrow>
      i < length vs \<and> ai_halted (vs ! i) \<noteq> Some True"
    using sweepFrom_found[of c ovr 0 vs "Grade i k" i] by (simp add: sweep_def)
next
  show "debug_force_vref c = None \<longrightarrow> selectVerse c ovr vs = Inr (Selected j, vs2) \<longrightarrow>
      j < length vs \<and> ai_halted (vs ! j) \<noteq> Some True"
  proof (intro impI)
    assume d: "debug_force_vref c = None" and s: "selectVerse c ovr vs = Inr (Selected j, vs2)"
    from s d obtain lowest vs3 where l: "lowestFrom c ovr 0 None vs = Inr (lowest, vs3)"
      and r: "(case lowest of
               None \<Rightarrow> Inr (NothingToReflect, vs3)
             | Some (lowestGradeFound, li) \<Rightarrow>
                 if (case highest_grade_to_reflect c of None \<Rightarrow> False | Some h \<Rightarrow> lowestGradeFound > h)
                 then Inr (StopAboveTarget lowestGradeFound, vs3)
                 else Inr (Selected li, vs3)) = (Inr (Selected j, vs2) :: js_error + (selection \<times> verse list))"
      by (auto simp: selectVerse_def err_bind_eq_Inr)
    from r obtain g where "lowest = Some (g, j)" "vs3 = vs2"
      by (cases lowest) (auto split: if_splits)
    with l have "lowestFrom c ovr 0 None vs = Inr (Some (g, j), vs2)" by simp
    from lowestFrom_found[OF this refl]
    show "j < length vs \<and> ai_halted (vs ! j) \<noteq> Some True" by simp
  qed
qed

theorem halted_never_selected_witness:
  "sweep ex_config3 (\<lambda>r. False) [ex_halted, ex_verse] = Inr (Grade 1 1) \<and>
   ai_halted ([ex_halted, ex_verse] ! 1) \<noteq> Some True \<and>
   debug_force_vref ex_config = None \<and>
   selectVerse ex_config (\<lambda>r. False) [ex_halted, ex_verse_finalized, ex_verse2] =
     Inr (Selected 2, [ex_halted, ex_verse_finalized, ex_verse2\<lparr>reflection_loops := Some (memoized ex_config ex_loops2)\<rparr>]) \<and>
   ai_halted ([ex_halted, ex_verse_finalized, ex_verse2] ! 2) \<noteq> Some True"
proof -
  have a: "sweep ex_config3 (\<lambda>r. False) [ex_halted, ex_verse] = Inr (Grade 1 1)"
    by code_simp
  have c: "debug_force_vref ex_config = None" by (simp add: ex_config_def default_config_def)
  have d: "selectVerse ex_config (\<lambda>r. False) [ex_halted, ex_verse_finalized, ex_verse2] =
     Inr (Selected 2, [ex_halted, ex_verse_finalized, ex_verse2\<lparr>reflection_loops := Some (memoized ex_config ex_loops2)\<rparr>])"
    by code_simp
  from halted_never_selected[of ex_config3 "\<lambda>r. False" "[ex_halted, ex_verse]" 1 1] a
  have e: "ai_halted ([ex_halted, ex_verse] ! 1) \<noteq> Some True" by simp
  from halted_never_selected[of ex_config "\<lambda>r. False" "[ex_halted, ex_verse_finalized, ex_verse2]" 0 0 2] c d
  have f: "ai_halted ([ex_halted, ex_verse_finalized, ex_verse2] ! 2) \<noteq> Some True" by simp
  from a c d e f show ?thesis by (intro conjI)
qed

text \<open>
  With \<open>debug_force_vref\<close> naming a halted, fully graded segment, the sweep passes over
  it, the selection picks it, and it is reflected on.
\<close>

theorem halted_never_selected_counterexample:
  "ai_halted ex_halted = Some True \<and>
   sweep ex_debug_config (\<lambda>r. False) [ex_halted] = Inr NoGrading \<and>
   selectVerse ex_debug_config (\<lambda>r. False) [ex_halted] = Inr (Selected 0, [ex_halted]) \<and>
   selectedWork ex_debug_config [ex_halted] 0 = Inr (Reflect 0)"
  by code_simp

section \<open>The grades the sweep asks for\<close>

lemma unanswered_open_round:
  assumes "reflection_loops v = Some ls" "ls \<noteq> []"
    and "\<not> truthy (prop_value (graded_verse (last ls)))"
  shows "computeNumberUnansweredGrades v c =
           (case grades (last ls) of None \<Rightarrow> 0 | Some gs \<Rightarrow> int (length gs))"
  using assms by (simp add: computeNumberUnansweredGrades_def Let_def)

lemma appendGrades_open_round:
  assumes "reflection_loops v = Some ls" "ls \<noteq> []" "graded_verse (last ls) = None"
  shows "reflection_loops (appendGrades v newGrades) =
           Some (butlast ls @
                 [(last ls)\<lparr>grades := Some ((case grades (last ls) of None \<Rightarrow> [] | Some g \<Rightarrow> g) @ newGrades)\<rparr>])"
proof -
  have "ls[length ls - 1 := x] = butlast ls @ [x]" for x
    using assms(2) by (metis append_butlast_last_id length_butlast list_update_length)
  with assms show ?thesis by (simp add: appendGrades_def Let_def)
qed

lemma appendGrades_fresh_round:
  assumes "reflection_loops v = Some ls" "ls \<noteq> []" "graded_verse (last ls) \<noteq> None"
  shows "reflection_loops (appendGrades v newGrades) =
           Some (ls @ [empty_loop\<lparr>grades := Some newGrades\<rparr>])"
  using assms by (simp add: appendGrades_def Let_def empty_loop_def)

lemma appendGrades_first_round:
  assumes "reflection_loops v = None \<or> reflection_loops v = Some []"
  shows "reflection_loops (appendGrades v newGrades) = Some [empty_loop\<lparr>grades := Some newGrades\<rparr>]"
  using assms by (auto simp: appendGrades_def Let_def empty_loop_def)

lemma sweepVerse_grade:
  assumes "\<not> adaptationDue v c" and "\<not> catchUpDue v"
    and "computeNumberUnansweredGrades v c < grades_per_reflection_loop c"
  shows "sweepVerse v c n =
           Some (Grade n (if grade_mode_enabled c = Some False then 1
                          else grades_per_reflection_loop c - computeNumberUnansweredGrades v c))"
proof -
  have "(\<not> (case grade_mode_enabled c of None \<Rightarrow> True | Some b \<Rightarrow> b)) = (grade_mode_enabled c = Some False)"
    by (cases "grade_mode_enabled c") auto
  with assms show ?thesis by (simp add: sweepVerse_def Let_def)
qed

lemma sweepFrom_passes:
  assumes "\<forall>j<k. sweepPasses c ovr (n + j) (vs ! j)" and "k \<le> length vs"
  shows "sweepFrom c ovr n vs = sweepFrom c ovr (n + k) (drop k vs)"
  using assms
proof (induction k arbitrary: n vs)
  case 0
  then show ?case by simp
next
  case (Suc k)
  then obtain v rest where vs: "vs = v # rest" by (cases vs) auto
  from Suc.prems(1) have p0: "sweepPasses c ovr n v" using vs by force
  have prest: "\<forall>j<k. sweepPasses c ovr (Suc n + j) (rest ! j)"
  proof (intro allI impI)
    fix j assume "j < k"
    then have "Suc j < Suc k" by simp
    with Suc.prems(1) have "sweepPasses c ovr (n + Suc j) (vs ! Suc j)" by blast
    then show "sweepPasses c ovr (Suc n + j) (rest ! j)" by (simp add: vs)
  qed
  from Suc.prems(2) vs have "k \<le> length rest" by simp
  from Suc.IH[OF prest this]
  have ih: "sweepFrom c ovr (Suc n) rest = sweepFrom c ovr (Suc n + k) (drop k rest)" .
  obtain vref where vref: "lookUpKey (data v) (map KStr (reference_key c)) JNull True = Inr vref"
    using lookUpKey_Inr by blast
  from p0 vref have "sweepFrom c ovr n (v # rest) = sweepFrom c ovr (Suc n) rest"
    by (auto simp: sweepPasses_def)
  with ih vs show ?case by simp
qed

lemma runAdaptationPass_not_due:
  "\<not> adaptationDue v c \<Longrightarrow> runAdaptationPass svc v c = Inr (False, v)"
  by (simp add: runAdaptationPass_def)

lemma buildContextFrom_keeps:
  assumes "buildContextFrom svc c ovr idxs vs = Inr (es, vs1)"
  shows "length vs1 = length vs \<and> (\<forall>j<length vs. \<not> adaptationDue (vs ! j) c \<longrightarrow> vs1 ! j = vs ! j)"
  using assms
proof (induction idxs arbitrary: vs es vs1)
  case Nil
  then show ?case by simp
next
  case (Cons index rest)
  obtain r where r: "lookUpKey (data (vs ! index)) (map KStr (reference_key c)) JNull True = Inr r"
    using lookUpKey_Inr by blast
  show ?case
  proof (cases "truthy r \<and> \<not> ovr r")
    case False
    with Cons.prems r have "buildContextFrom svc c ovr rest vs = Inr (es, vs1)" by auto
    from Cons.IH[OF this] show ?thesis .
  next
    case True
    with Cons.prems r obtain b v1 es1 where ra: "runAdaptationPass svc (vs ! index) c = Inr (b, v1)"
      and rec: "buildContextFrom svc c ovr rest (vs[index := v1]) = Inr (es1, vs1)"
      by (auto simp: err_bind_eq_Inr)
    from Cons.IH[OF rec]
    have len: "length vs1 = length vs"
      and keep: "\<forall>j<length vs. \<not> adaptationDue (vs[index := v1] ! j) c \<longrightarrow> vs1 ! j = vs[index := v1] ! j"
      by simp_all
    have "vs1 ! j = vs ! j" if j: "j < length vs" and nd: "\<not> adaptationDue (vs ! j) c" for j
    proof (cases "j = index")
      case True
      with ra nd have "v1 = vs ! j" by (simp add: runAdaptationPass_not_due)
      with True have "vs[index := v1] = vs" by simp
      with keep j nd show ?thesis by simp
    next
      case False
      then have "vs[index := v1] ! j = vs ! j" by simp
      with keep j nd show ?thesis by simp
    qed
    with len show ?thesis by simp
  qed
qed

lemma multiGradeVerse_length:
  "multiGradeVerse choices k = Inr gs \<Longrightarrow> length gs = k"
proof (induction choices k arbitrary: gs rule: multiGradeVerse.induct)
  case (1 choices)
  then show ?case by simp
next
  case (2 numGrades)
  then show ?case by simp
next
  case (3 choice choices numGrades)
  then show ?case by (auto simp: err_bind_eq_Inr)
qed

lemma gradeVerse_appends:
  assumes "gradeVerse svc c ovr n k vs = Inr vs2" and "n < length vs"
    and "\<not> adaptationDue (vs ! n) c"
  shows "\<exists>newGrades. length newGrades = nat k \<and> vs2 ! n = appendGrades (vs ! n) newGrades"
proof -
  from assms(1) obtain cc vs1 newGrades
    where bc: "buildCommonContext svc c ovr n vs = Inr (cc, vs1)"
      and mg: "multiGradeVerse (grading svc (vs1 ! n) cc (nat k)) (nat k) = Inr newGrades"
      and vs2: "vs2 = vs1[n := appendGrades (vs1 ! n) newGrades]"
    by (auto simp: gradeVerse_def err_bind_eq_Inr)
  from bc obtain es where "buildContextFrom svc c ovr (contextIndices c n (length vs)) vs = Inr (es, vs1)"
    by (auto simp: buildCommonContext_def err_bind_eq_Inr)
  from buildContextFrom_keeps[OF this] assms(2,3)
  have "length vs1 = length vs" "vs1 ! n = vs ! n" by simp_all
  with vs2 assms(2) multiGradeVerse_length[OF mg] show ?thesis by auto
qed

text \<open>
  Claim C3, as amended. When the sweep reaches a segment (no earlier line stops it; the
  segment is within the line range, not halted, has a reference that is not overridden,
  and needs neither adaptation nor a catch-up after a comment change) whose count \<open>u\<close> of
  unanswered grades is below \<open>grades_per_reflection_loop\<close>, it stops there and requests
  exactly the shortfall, or exactly one grade when grade mode is disabled; the grading
  branch appends exactly that many grades to the segment. They go to the newest round
  when that round has not recorded its \<open>graded_verse\<close> (and \<open>u\<close> is then the number of
  grades of that round), and to a freshly opened round otherwise. In particular, with
  three grades per round and two grades in a newest round that has not recorded its
  \<open>graded_verse\<close>, exactly one grade is requested.
\<close>

theorem sweep_requests_shortfall:
  assumes i: "i < length vs"
    and earlier: "\<forall>j<i. sweepPasses c ovr j (vs ! j)"
    and from_start: "\<not> (case start_line c of None \<Rightarrow> False | Some s \<Rightarrow> int i < s - 1)"
    and to_end: "\<not> (case end_line c of None \<Rightarrow> False | Some e \<Rightarrow> int i > e - 1)"
    and nh: "ai_halted (vs ! i) \<noteq> Some True"
    and ref: "lookUpKey (data (vs ! i)) (map KStr (reference_key c)) JNull True = Inr r"
             "r \<noteq> JNull" "r \<noteq> JUndefined" "\<not> ovr r"
    and na: "\<not> adaptationDue (vs ! i) c"
    and nc: "\<not> catchUpDue (vs ! i)"
    and u: "u = computeNumberUnansweredGrades (vs ! i) c" "u < grades_per_reflection_loop c"
    and k: "k = (if grade_mode_enabled c = Some False then 1 else grades_per_reflection_loop c - u)"
  shows "sweep c ovr vs = Inr (Grade i k) \<and> 1 \<le> k \<and>
         (\<forall>svc vs2. gradeVerse svc c ovr i k vs = Inr vs2 \<longrightarrow>
            (\<exists>newGrades. length newGrades = nat k \<and> vs2 ! i = appendGrades (vs ! i) newGrades)) \<and>
         (\<forall>ls. reflection_loops (vs ! i) = Some ls \<and> ls \<noteq> [] \<and> graded_verse (last ls) = None \<longrightarrow>
            u = (case grades (last ls) of None \<Rightarrow> 0 | Some gs \<Rightarrow> int (length gs)) \<and>
            (\<forall>newGrades. reflection_loops (appendGrades (vs ! i) newGrades) =
               Some (butlast ls @
                     [(last ls)\<lparr>grades := Some ((case grades (last ls) of None \<Rightarrow> [] | Some g \<Rightarrow> g) @ newGrades)\<rparr>]))) \<and>
         (\<forall>ls. reflection_loops (vs ! i) = Some ls \<and> ls \<noteq> [] \<and> graded_verse (last ls) \<noteq> None \<longrightarrow>
            (\<forall>newGrades. reflection_loops (appendGrades (vs ! i) newGrades) =
               Some (ls @ [empty_loop\<lparr>grades := Some newGrades\<rparr>]))) \<and>
         (reflection_loops (vs ! i) = None \<or> reflection_loops (vs ! i) = Some [] \<longrightarrow>
            (\<forall>newGrades. reflection_loops (appendGrades (vs ! i) newGrades) =
               Some [empty_loop\<lparr>grades := Some newGrades\<rparr>])) \<and>
         (grades_per_reflection_loop c = 3 \<and>
          (\<exists>ls gs. reflection_loops (vs ! i) = Some ls \<and> ls \<noteq> [] \<and> graded_verse (last ls) = None \<and>
                   grades (last ls) = Some gs \<and> length gs = 2) \<longrightarrow> k = 1)"
proof -
  let ?v = "vs ! i"
  have "\<forall>j<i. sweepPasses c ovr (0 + j) (vs ! j)" using earlier by simp
  from sweepFrom_passes[OF this] i
  have s1: "sweepFrom c ovr 0 vs = sweepFrom c ovr i (drop i vs)" by simp
  from i have d: "drop i vs = ?v # drop (Suc i) vs" by (simp add: Cons_nth_drop_Suc)
  have sv: "sweepVerse ?v c i = Some (Grade i k)"
    using sweepVerse_grade[OF na nc, of i] u k by simp
  have "sweepFrom c ovr i (?v # drop (Suc i) vs) = Inr (Grade i k)"
    using from_start to_end nh ref sv by simp
  with s1 d have a: "sweep c ovr vs = Inr (Grade i k)" by (simp add: sweep_def)
  from k u(2) have pos: "1 \<le> k" by auto
  have eff: "\<forall>svc vs2. gradeVerse svc c ovr i k vs = Inr vs2 \<longrightarrow>
            (\<exists>newGrades. length newGrades = nat k \<and> vs2 ! i = appendGrades (vs ! i) newGrades)"
    using gradeVerse_appends[OF _ i na] by blast
  have open_round: "\<forall>ls. reflection_loops ?v = Some ls \<and> ls \<noteq> [] \<and> graded_verse (last ls) = None \<longrightarrow>
            u = (case grades (last ls) of None \<Rightarrow> 0 | Some gs \<Rightarrow> int (length gs)) \<and>
            (\<forall>newGrades. reflection_loops (appendGrades ?v newGrades) =
               Some (butlast ls @
                     [(last ls)\<lparr>grades := Some ((case grades (last ls) of None \<Rightarrow> [] | Some g \<Rightarrow> g) @ newGrades)\<rparr>]))"
    using unanswered_open_round[of ?v _ c] appendGrades_open_round[of ?v] u(1)
    by (simp add: prop_value_def)
  have fresh: "\<forall>ls. reflection_loops ?v = Some ls \<and> ls \<noteq> [] \<and> graded_verse (last ls) \<noteq> None \<longrightarrow>
            (\<forall>newGrades. reflection_loops (appendGrades ?v newGrades) =
               Some (ls @ [empty_loop\<lparr>grades := Some newGrades\<rparr>]))"
    using appendGrades_fresh_round[of ?v] by blast
  have first: "reflection_loops ?v = None \<or> reflection_loops ?v = Some [] \<longrightarrow>
            (\<forall>newGrades. reflection_loops (appendGrades ?v newGrades) =
               Some [empty_loop\<lparr>grades := Some newGrades\<rparr>])"
    using appendGrades_first_round[of ?v] by blast
  have particular: "grades_per_reflection_loop c = 3 \<and>
          (\<exists>ls gs. reflection_loops ?v = Some ls \<and> ls \<noteq> [] \<and> graded_verse (last ls) = None \<and>
                   grades (last ls) = Some gs \<and> length gs = 2) \<longrightarrow> k = 1"
  proof
    assume h: "grades_per_reflection_loop c = 3 \<and>
          (\<exists>ls gs. reflection_loops ?v = Some ls \<and> ls \<noteq> [] \<and> graded_verse (last ls) = None \<and>
                   grades (last ls) = Some gs \<and> length gs = 2)"
    then obtain ls gs where l: "reflection_loops ?v = Some ls" "ls \<noteq> []" "graded_verse (last ls) = None"
      and g: "grades (last ls) = Some gs" "length gs = 2" by blast
    from open_round l g have "u = 2" by simp
    with h k show "k = 1" by simp
  qed
  from a pos eff open_round fresh first particular show ?thesis by (intro conjI)
qed

theorem sweep_requests_shortfall_witness:
  "sweepPasses ex_config3 (\<lambda>r. False) 0 ex_halted \<and>
   \<not> adaptationDue ex_verse ex_config3 \<and> \<not> catchUpDue ex_verse \<and>
   grades_per_reflection_loop ex_config3 = 3 \<and>
   computeNumberUnansweredGrades ex_verse ex_config3 = 2 \<and>
   sweep ex_config3 (\<lambda>r. False) [ex_halted, ex_verse] = Inr (Grade 1 1) \<and>
   gradeVerse ex_services ex_config3 (\<lambda>r. False) 1 1 [ex_halted, ex_verse] = Inr [ex_halted, ex_verse_graded3] \<and>
   (\<exists>newGrades. length newGrades = 1 \<and> ex_verse_graded3 = appendGrades ex_verse newGrades)"
proof -
  let ?vs = "[ex_halted, ex_verse]"
  have h0: "(1::nat) < length ?vs" by simp
  have p: "sweepPasses ex_config3 (\<lambda>r. False) 0 ex_halted" by code_simp
  then have h1: "\<forall>j<(1::nat). sweepPasses ex_config3 (\<lambda>r. False) j (?vs ! j)" by simp
  have h2: "\<not> (case start_line ex_config3 of None \<Rightarrow> False | Some s \<Rightarrow> int (1::nat) < s - 1)"
    by (simp add: ex_config3_def ex_config_def default_config_def)
  have h3: "\<not> (case end_line ex_config3 of None \<Rightarrow> False | Some e \<Rightarrow> int (1::nat) > e - 1)"
    by (simp add: ex_config3_def ex_config_def default_config_def)
  have h4: "ai_halted (?vs ! 1) \<noteq> Some True" by (simp add: ex_verse_def empty_verse_def)
  have h5: "lookUpKey (data (?vs ! 1)) (map KStr (reference_key ex_config3)) JNull True = Inr (JStr ''GEN 1:1'')"
    by code_simp
  have h6: "JStr ''GEN 1:1'' \<noteq> JNull" "JStr ''GEN 1:1'' \<noteq> JUndefined" "\<not> (\<lambda>r. False) (JStr ''GEN 1:1'')"
    by simp_all
  have na: "\<not> adaptationDue ex_verse ex_config3" by code_simp
  have nc: "\<not> catchUpDue ex_verse" by code_simp
  have g: "grades_per_reflection_loop ex_config3 = 3"
    by (simp add: ex_config3_def ex_config_def default_config_def)
  have u: "computeNumberUnansweredGrades ex_verse ex_config3 = 2" by code_simp
  have h7: "\<not> adaptationDue (?vs ! 1) ex_config3" using na by simp
  have h8: "\<not> catchUpDue (?vs ! 1)" using nc by simp
  have h9: "(2::int) = computeNumberUnansweredGrades (?vs ! 1) ex_config3" using u by simp
  have h10: "(2::int) < grades_per_reflection_loop ex_config3" using g by simp
  have h11: "(1::int) = (if grade_mode_enabled ex_config3 = Some False then 1
                          else grades_per_reflection_loop ex_config3 - 2)"
    using g by simp
  have gv: "gradeVerse ex_services ex_config3 (\<lambda>r. False) 1 1 ?vs = Inr [ex_halted, ex_verse_graded3]"
    by code_simp
  note th = sweep_requests_shortfall[OF h0 h1 h2 h3 h4 h5 h6 h7 h8 h9 h10 h11]
  from th have a: "sweep ex_config3 (\<lambda>r. False) ?vs = Inr (Grade 1 1)" by blast
  from th gv have "\<exists>newGrades. length newGrades = nat 1 \<and>
      [ex_halted, ex_verse_graded3] ! 1 = appendGrades (?vs ! 1) newGrades"
    by blast
  then have b: "\<exists>newGrades. length newGrades = 1 \<and> ex_verse_graded3 = appendGrades ex_verse newGrades"
    by simp
  from p na nc g u a gv b show ?thesis by (intro conjI)
qed

text \<open>
  With three grades per round and two rounds per segment, a segment whose newest round
  holds two grades and its \<open>graded_verse\<close> counts no unanswered grade: the sweep requests
  three grades, and they go to a new round, not to the round with the two grades.
\<close>

theorem sweep_requests_shortfall_counterexample:
  "grades_per_reflection_loop ex_config3_2 = 3 \<and>
   reflection_loops ex_verse_reflected =
     Some [empty_loop\<lparr>grades := Some [\<lparr>comment = ''a'', grade = 40\<rparr>, \<lparr>comment = ''b'', grade = 60\<rparr>],
                      graded_verse := Some (JStr ''draft0'')\<rparr>] \<and>
   sweep ex_config3_2 (\<lambda>r. False) [ex_verse_reflected] = Inr (Grade 0 3) \<and>
   gradeVerse ex_services ex_config3_2 (\<lambda>r. False) 0 3 [ex_verse_reflected] = Inr [ex_verse_regraded] \<and>
   reflection_loops ex_verse_regraded =
     Some [empty_loop\<lparr>grades := Some [\<lparr>comment = ''a'', grade = 40\<rparr>, \<lparr>comment = ''b'', grade = 60\<rparr>],
                      graded_verse := Some (JStr ''draft0'')\<rparr>,
           empty_loop\<lparr>grades := Some [\<lparr>comment = ''c'', grade = 70\<rparr>, \<lparr>comment = ''c'', grade = 70\<rparr>,
                                       \<lparr>comment = ''c'', grade = 70\<rparr>]\<rparr>]"
  by code_simp

section \<open>A changed source text resets the segment\<close>








lemma resetVerseTo_result:
  assumes "resetVerseTo v t = Inr v2"
  shows "reflection_loops v2 = Some [] \<and>
         lookUpKey (data v2) (map KStr TRANSLATION_KEY) dflt True = Inr t \<and>
         (comment_mod_loop_count v2 = comment_mod_loop_count v \<or> comment_mod_loop_count v2 = Some 0)"
proof -
  from assms obtain d where d: "setKey (data v) TRANSLATION_KEY t = Inr d"
    and v2: "v2 = v\<lparr>data := d,
              reflection_loops := Some [],
              reflection_is_finalized :=
                (if reflection_is_finalized v = Some True then Some False else reflection_is_finalized v),
              reflection_finalized_grade :=
                (case reflection_finalized_grade v of
                   None \<Rightarrow> None
                 | Some g \<Rightarrow> if g \<noteq> 0 then None else Some g),
              reflection_finalized_comment :=
                (case reflection_finalized_comment v of
                   None \<Rightarrow> None
                 | Some j \<Rightarrow> if truthy j then Some JNull else Some j),
              comment_mod_loop_count :=
                (case comment_mod_loop_count v of
                   None \<Rightarrow> None
                 | Some k \<Rightarrow> if k \<noteq> 0 then Some 0 else Some k)\<rparr>"
    by (auto simp: resetVerseTo_def err_bind_eq_Inr)
  have "TRANSLATION_KEY \<noteq> []" by (simp add: TRANSLATION_KEY_def)
  from setKey_lookUpKey[OF d this, of dflt] v2 show ?thesis
    by (auto split: option.splits)
qed








lemma resetVerseTo_source:
  assumes "resetVerseTo v t = Inr v2"
  shows "lookUpKey (data v2) (map KStr SOURCE_KEY) dflt True =
         lookUpKey (data v) (map KStr SOURCE_KEY) dflt True"
proof -
  from assms obtain d where d: "setKey (data v) TRANSLATION_KEY t = Inr d" and v2: "data v2 = d"
    by (auto simp: resetVerseTo_def err_bind_eq_Inr)
  from d have "setKey (data v) (''fresh_translation'' # [''text'']) t = Inr d"
    by (simp only: TRANSLATION_KEY_def)
  from setKey_frame[OF this, of "''source''" "[]" dflt True] v2 show ?thesis
    by (simp only: SOURCE_KEY_def list.map) simp
qed














section \<open>The comment boundary\<close>

lemma computeVerseGrade_cmlc:
  assumes "computeVerseGrade v c = Inr (g, v1)"
  shows "comment_mod_loop_count v1 = comment_mod_loop_count v"
proof (cases "walked v c")
  case False
  from computeVerseGrade_not_walked[OF False] assms show ?thesis by auto
next
  case True
  then obtain ls where ls: "reflection_loops v = Some ls" by (auto simp: walked_def)
  from computeVerseGrade_walked[OF True ls] assms show ?thesis by auto
qed

lemma applyBest_cmlc:
  assumes "applyBest v1 c ls bi g = Inr v2"
  shows "comment_mod_loop_count v2 = comment_mod_loop_count v1"
  using assms
  by (auto simp: applyBest_def err_bind_eq_Inr Let_def split: option.splits)

lemma finalizeVerse_cmlc:
  assumes "finalizeVerse v c = Inr v2"
  shows "comment_mod_loop_count v2 = comment_mod_loop_count v"
proof (cases "reflection_loops v = None \<or> verseIsFinalized v \<or> verseNeedsFinalization v c = Inr False")
  case True
  have "finalizeVerse v c = Inr v"
  proof (cases "reflection_loops v")
    case None
    then show ?thesis by (simp add: finalizeVerse_def)
  next
    case (Some ls0)
    with True show ?thesis by (auto simp: finalizeVerse_def)
  qed
  with assms show ?thesis by simp
next
  case False
  then obtain ls0 where ls0: "reflection_loops v = Some ls0" and nf: "\<not> verseIsFinalized v"
    and nn: "verseNeedsFinalization v c \<noteq> Inr False" by auto
  from assms ls0 nf nn have needs: "verseNeedsFinalization v c = Inr True"
    by (cases "verseNeedsFinalization v c") (auto simp: finalizeVerse_def)
  obtain g v1 where cv: "computeVerseGrade v c = Inr (g, v1)"
    using computeVerseGrade_total by blast
  note c1 = computeVerseGrade_cmlc[OF cv]
  show ?thesis
  proof (cases "reflection_loops v1")
    case None
    with assms ls0 nf needs cv have "v2 = v1" by (simp add: finalizeVerse_def Let_def)
    with c1 show ?thesis by simp
  next
    case (Some ls)
    note e = finalizeVerse_unfold[OF ls0 nf needs cv Some]
    show ?thesis
    proof (cases "findBest None (slice_start (length ls) (case comment_mod_loop_count v1 of None \<Rightarrow> 0 | Some k \<Rightarrow> k))
                (drop (slice_start (length ls) (case comment_mod_loop_count v1 of None \<Rightarrow> 0 | Some k \<Rightarrow> k)) ls)")
      case None
      with e assms have "v2 = v1" by simp
      with c1 show ?thesis by simp
    next
      case (Some b)
      with e assms have "applyBest v1 c ls (fst b) (snd b) = Inr v2" by (cases b) simp
      from applyBest_cmlc[OF this] c1 show ?thesis by simp
    qed
  qed
qed

lemma skipReflection_cmlc:
  assumes "skipReflection v c = Inr v2"
  shows "comment_mod_loop_count v2 = comment_mod_loop_count v"
  using assms by (auto simp: skipReflection_def err_bind_eq_Inr Let_def)

lemma storeAdaptation_cmlc:
  assumes "storeAdaptation v c t p = Inr v2"
  shows "comment_mod_loop_count v2 = comment_mod_loop_count v"
  using assms by (auto simp: storeAdaptation_def err_bind_eq_Inr Let_def)

lemma storeReflection_cmlc:
  assumes "storeReflection v c t p s = Inr v2"
  shows "comment_mod_loop_count v2 = comment_mod_loop_count v"
  using assms
  by (auto simp: storeReflection_def err_bind_eq_Inr Let_def split: option.splits if_splits)

lemma resetVerseTo_cmlc:
  assumes "resetVerseTo v t = Inr v2"
  shows "reflection_loops v2 = Some [] \<and>
         (comment_mod_loop_count v2 = comment_mod_loop_count v \<or> comment_mod_loop_count v2 = Some 0)"
  using resetVerseTo_result[OF assms] by simp

text \<open>
  A \<open>resetVerseTo\<close> that raises at its last statement has cleared the history like one
  that returns.
\<close>

lemma resetVerseTo_raised_cmlc:
  "reflection_loops (resetVerseTo_raised v) = Some [] \<and>
   (comment_mod_loop_count (resetVerseTo_raised v) = comment_mod_loop_count v \<or>
    comment_mod_loop_count (resetVerseTo_raised v) = Some 0)"
  by (auto simp: resetVerseTo_raised_def split: option.splits)

text \<open>
  Claim C9. No operation on a segment decreases \<open>comment_mod_loop_count\<close>: every
  operation leaves it as it was, except \<open>resetVerseTo\<close>, which empties
  \<open>reflection_loops\<close> and sets a recorded non-zero count to 0.
\<close>

theorem comment_mod_loop_count_monotone:
  assumes "applyOp c op v = Inr v2"
  shows "comment_mod_loop_count v2 = comment_mod_loop_count v \<or>
         ((\<exists>t. op = OpResetVerseTo t) \<and> reflection_loops v2 = Some [] \<and>
          comment_mod_loop_count v2 = Some 0)"
proof (cases op)
  case OpComputeVerseGrade
  with assms obtain r where "computeVerseGrade v c = Inr r" "v2 = snd r"
    by (auto simp: err_bind_eq_Inr)
  then have "computeVerseGrade v c = Inr (fst r, v2)" by simp
  from computeVerseGrade_cmlc[OF this] show ?thesis by simp
next
  case OpFinalizeVerse
  with assms finalizeVerse_cmlc show ?thesis by simp
next
  case (OpAppendGrades gs)
  with assms show ?thesis by (auto simp: appendGrades_def Let_def)
next
  case OpSkipReflection
  with assms skipReflection_cmlc show ?thesis by simp
next
  case (OpStoreAdaptation t p)
  with assms storeAdaptation_cmlc show ?thesis by simp
next
  case (OpStoreReflection t p s)
  with assms storeReflection_cmlc show ?thesis by simp
next
  case (OpResetVerseTo t)
  with assms resetVerseTo_cmlc[of v t v2] show ?thesis by auto
next
  case (OpSetSource s)
  with assms show ?thesis by (auto simp: err_bind_eq_Inr)
qed

theorem comment_mod_loop_count_monotone_witness:
  "applyOp ex_config OpFinalizeVerse ex_verse2 = Inr ex_verse2_finalized \<and>
   comment_mod_loop_count ex_verse2_finalized = comment_mod_loop_count ex_verse2 \<and>
   applyOp ex_config (OpResetVerseTo (JStr ''draft1'')) ex_verse_commented = Inr ex_verse_commented_reset \<and>
   comment_mod_loop_count ex_verse_commented = Some 1 \<and>
   reflection_loops ex_verse_commented_reset = Some [] \<and>
   comment_mod_loop_count ex_verse_commented_reset = Some 0"
proof -
  have a: "applyOp ex_config OpFinalizeVerse ex_verse2 = Inr ex_verse2_finalized"
    by code_simp
  have b: "applyOp ex_config (OpResetVerseTo (JStr ''draft1'')) ex_verse_commented = Inr ex_verse_commented_reset"
    by code_simp
  have c: "comment_mod_loop_count ex_verse_commented = Some 1"
    by (simp add: ex_verse_commented_def)
  have d: "comment_mod_loop_count ex_verse2_finalized \<noteq> Some 0"
    by (simp add: ex_verse2_finalized_def empty_verse_def)
  have e: "comment_mod_loop_count ex_verse_commented_reset \<noteq> comment_mod_loop_count ex_verse_commented"
    by (simp add: ex_verse_commented_reset_def ex_verse_commented_def)
  from comment_mod_loop_count_monotone[OF a] d
  have f: "comment_mod_loop_count ex_verse2_finalized = comment_mod_loop_count ex_verse2"
    by blast
  from comment_mod_loop_count_monotone[OF b] e
  have g: "reflection_loops ex_verse_commented_reset = Some [] \<and>
           comment_mod_loop_count ex_verse_commented_reset = Some 0"
    by blast
  from a b c f g show ?thesis by (intro conjI) simp_all
qed

section \<open>The checkpoint round trip\<close>

lemma split_on_no_sep: "sep \<notin> set s \<Longrightarrow> split_on sep s = [s]"
  by (induction s) auto

lemma split_on_append: "sep \<notin> set s \<Longrightarrow> split_on sep (s @ sep # rest) = s # split_on sep rest"
  by (induction s) auto

lemma split_join:
  "\<forall>x \<in> set xs. \<exists>s. x = Some s \<and> sep \<notin> set s \<Longrightarrow> xs \<noteq> [] \<Longrightarrow>
     split_on sep (join_with sep xs) = map the xs"
proof (induction sep xs rule: join_with.induct)
  case (1 sep)
  then show ?case by simp
next
  case (2 sep x)
  then show ?case by (auto simp: split_on_no_sep)
next
  case (3 sep x y rest)
  then obtain s where s: "x = Some s" "sep \<notin> set s" by auto
  from 3 have "split_on sep (join_with sep (y # rest)) = map the (y # rest)" by simp
  with s show ?case by (simp add: split_on_append)
qed

lemma js_trim_Nil [simp]: "js_trim [] = []"
  by (simp add: js_trim_def)

lemma parseAll_map:
  "\<forall>v \<in> set dat. parse (f v) = Inr v \<Longrightarrow> parseAll parse (map f dat) = Inr dat"
  by (induction dat) auto

text \<open>
  Claim C8. Saving a collection with \<open>saveJsonl\<close> and loading the file with \<open>loadJsonl\<close>
  gives the collection back, the empty collection included, whenever the platform's
  \<open>JSON.stringify\<close> writes each element as one non-blank line and \<open>JSON.parse\<close> reads
  that line back as the element (which they do for the objects of a checkpoint file,
  segments with empty \<open>reflection_loops\<close> among them).
\<close>

theorem jsonl_round_trip:
  assumes "\<forall>v \<in> set dat. \<exists>s. stringify v = Some s \<and> parse s = Inr v \<and>
             CHR 0x0A \<notin> set s \<and> js_trim s \<noteq> []"
  shows "loadJsonl parse (saveJsonl stringify fs filename dat) filename dflt = Inr dat"
proof -
  let ?content = "join_with (CHR 0x0A) (map stringify dat)"
  have saved: "saveJsonl stringify fs filename dat filename = Some ?content"
    by (simp add: saveJsonl_def Let_def)
  show ?thesis
  proof (cases "dat = []")
    case True
    with saved show ?thesis by (simp add: loadJsonl_def)
  next
    case False
    have a: "\<forall>x \<in> set (map stringify dat). \<exists>s. x = Some s \<and> CHR 0x0A \<notin> set s"
      using assms by auto
    have sp: "split_on (CHR 0x0A) ?content = map the (map stringify dat)"
      using split_join[OF a] False by simp
    have "\<forall>line \<in> set (map the (map stringify dat)). js_trim line \<noteq> []"
      using assms by fastforce
    then have keep: "filter (\<lambda>line. js_trim line \<noteq> []) (map the (map stringify dat)) = map (\<lambda>v. the (stringify v)) dat"
      by (simp add: filter_id_conv comp_def)
    have "parseAll parse (map (\<lambda>v. the (stringify v)) dat) = Inr dat"
      using assms by (intro parseAll_map) auto
    with saved sp keep show ?thesis by (simp add: loadJsonl_def)
  qed
qed

lemma ex_segments_codec:
  "list_all (\<lambda>v. case json_stringify v of
                    None \<Rightarrow> False
                  | Some s \<Rightarrow> json_parse s = Inr v \<and> CHR 0x0A \<notin> set s \<and> js_trim s \<noteq> [])
     ex_segments"
  by code_simp

theorem jsonl_round_trip_witness:
  "list_all (\<lambda>v. case json_stringify v of
                    None \<Rightarrow> False
                  | Some s \<Rightarrow> json_parse s = Inr v \<and> CHR 0x0A \<notin> set s \<and> js_trim s \<noteq> [])
     ex_segments \<and>
   loadJsonl json_parse (saveJsonl json_stringify Map.empty ''reflection.jsonl'' ex_segments)
     ''reflection.jsonl'' None = Inr ex_segments"
proof -
  have h: "\<forall>v \<in> set ex_segments. \<exists>s. json_stringify v = Some s \<and> json_parse s = Inr v \<and>
       CHR 0x0A \<notin> set s \<and> js_trim s \<noteq> []"
    using ex_segments_codec by (auto simp: list_all_iff split: option.splits)
  from jsonl_round_trip[OF h] ex_segments_codec show ?thesis by (intro conjI)
qed

end
